theory Spec2Isabelle
  imports Complex_Main "HOL-Library.AList"
begin

section \<open>Strings\<close>

text \<open>
  JavaScript strings are modelled as \<open>string\<close> (a list of characters).  The helpers below
  are the String methods the services call, with the behaviour the sources rely on.
\<close>

text \<open>\<^verbatim>\<open>s.lastIndexOf(c)\<close> for a one-character needle: the scan keeps the index of the
  latest match and answers -1 when there is none.\<close>

fun lastIndexOf_scan :: "char \<Rightarrow> string \<Rightarrow> int \<Rightarrow> int \<Rightarrow> int" where
  "lastIndexOf_scan c [] i found = found"
| "lastIndexOf_scan c (x # xs) i found =
     lastIndexOf_scan c xs (i + 1) (if x = c then i else found)"

definition lastIndexOf :: "string \<Rightarrow> char \<Rightarrow> int" where
  "lastIndexOf s c = lastIndexOf_scan c s 0 (- 1)"

text \<open>\<^verbatim>\<open>s.substring(a, b)\<close>: both indices are clamped to the string and swapped when
  out of order.\<close>

definition substring :: "string \<Rightarrow> int \<Rightarrow> int \<Rightarrow> string" where
  "substring s a b =
     (let n = int (length s);
          a' = max 0 (min a n);
          b' = max 0 (min b n);
          lo = min a' b';
          hi = max a' b'
      in take (nat (hi - lo)) (drop (nat lo) s))"

text \<open>\<^verbatim>\<open>s.split(c)\<close> for a one-character separator; the result is never empty
  (\<^verbatim>\<open>"".split(".")\<close> is \<^verbatim>\<open>[""]\<close>).\<close>

fun split :: "char \<Rightarrow> string \<Rightarrow> string list" where
  "split c [] = [[]]"
| "split c (x # xs) =
     (if x = c then [] # split c xs
      else (case split c xs of [] \<Rightarrow> [[x]] | w # ws \<Rightarrow> (x # w) # ws))"

text \<open>\<^verbatim>\<open>s.toLowerCase()\<close> on the ASCII letters (other characters are left as they are).\<close>

definition toLowerCase_char :: "char \<Rightarrow> char" where
  "toLowerCase_char c =
     (case map_of (zip ''ABCDEFGHIJKLMNOPQRSTUVWXYZ'' ''abcdefghijklmnopqrstuvwxyz'') c of
        Some l \<Rightarrow> l
      | None \<Rightarrow> c)"

definition toLowerCase :: "string \<Rightarrow> string" where
  "toLowerCase s = map toLowerCase_char s"

text \<open>\<^verbatim>\<open>s.trim()\<close>: white space and line terminators are removed at both ends (the
  ASCII ones: tab, line feed, vertical tab, form feed, carriage return, space).\<close>

definition is_space :: "char \<Rightarrow> bool" where
  "is_space c = (c \<in> set [CHR 0x09, CHR 0x0A, CHR 0x0B, CHR 0x0C, CHR 0x0D, CHR 0x20])"

definition trim :: "string \<Rightarrow> string" where
  "trim s = rev (dropWhile is_space (rev (dropWhile is_space s)))"

section \<open>Target keys (convertionService.ts, generateTargetKey)\<close>

definition generateTargetKey :: "string \<Rightarrow> string" where
  "generateTargetKey sourceKey =
     (let lastDotIndex = lastIndexOf sourceKey (CHR ''.'')
      in if lastDotIndex = - 1 then sourceKey @ ''.webp''
         else (let baseName = substring sourceKey 0 lastDotIndex
               in baseName @ ''.webp''))"

text \<open>\<^verbatim>\<open>s.startsWith(p)\<close>, the test behind the store's prefix filter.\<close>

definition startsWith :: "string \<Rightarrow> string \<Rightarrow> bool" where
  "startsWith s p = (take (length p) s = p)"

text \<open>\<^verbatim>\<open>n.toString()\<close> for a non-negative integer.\<close>

fun toString :: "nat \<Rightarrow> string" where
  "toString n =
     (if n < 10 then [''0123456789'' ! n]
      else toString (n div 10) @ [''0123456789'' ! (n mod 10)])"

declare toString.simps [simp del]

section \<open>Data model (models, s3Service.ts, conversionTracker.ts)\<close>

text \<open>
  Counters and byte sizes are non-negative integers; ratios are quotients of such numbers and
  are kept as exact reals (the rounding of the one floating-point division is not modelled).
  Dates and durations are milliseconds.  A Buffer is its list of bytes.
\<close>

type_synonym buffer = "nat list"

record S3Object =
  key :: string
  size' :: nat
  lastModified :: nat
  etag :: string

datatype status = Success | Failed | Skipped

record ConversionResult =
  sourceKey :: string
  targetKey :: string
  originalSize :: nat
  convertedSize :: nat
  compressionRatio :: real
  processingTime :: nat
  status :: status
  error :: "string option"

record ConversionReport =
  totalImages :: nat
  successful :: nat
  failed :: nat
  skipped :: nat
  totalSizeBefore :: nat
  totalSizeAfter :: nat
  averageCompressionRatio :: real
  processingDuration :: nat
  errors :: "string list"

record ImageMetadata =
  originalFormat :: string
  width :: nat
  height :: nat
  fileSize :: nat
  lastModified_md :: nat
  contentType :: string

record ConversionRecord =
  sourceKey_rec :: string
  targetKey_rec :: string
  convertedAt_rec :: string
  originalSize_rec :: nat
  convertedSize_rec :: nat
  compressionRatio_rec :: real

text \<open>The part of the configuration the services read (config/index.ts).\<close>

record Config =
  targetBucket :: string
  prefix :: string
  quality :: nat
  supportedFormats :: "string list"
  concurrency :: nat

text \<open>
  Thrown values.  \<open>S3ServiceException\<close> is the SDK's error class (a subclass of Error),
  \<open>NonError\<close> any thrown value that is not an Error.
\<close>

datatype exn = Error string | S3ServiceException string | NonError

text \<open>\<^verbatim>\<open>error instanceof Error ? error.message : "Unknown error"\<close>\<close>

fun errorMessage :: "exn \<Rightarrow> string" where
  "errorMessage (Error m) = m"
| "errorMessage (S3ServiceException m) = m"
| "errorMessage NonError = ''Unknown error''"

text \<open>The fields of \<open>FileBasedConversionTracker\<close>; a JavaScript Set of strings is a set.\<close>

record tracker_state =
  convertedKeys :: "string set"
  isLoaded :: bool
  writeQueue :: "ConversionRecord list"
  isWriting :: bool

text \<open>
  The two files of the tracker: the tracking file (primary store) and the append log
  (journal), each absent (\<open>None\<close>, a read fails with ENOENT) or holding text.  The
  constructor derives the second name from the first by replacing \<open>.json\<close> with
  \<open>-append.log\<close>; the model covers the names for which the two differ, as the default does.
\<close>

record fs_state =
  trackingFile :: "string option"
  appendLog :: "string option"

section \<open>The object store behind the S3 client\<close>

text \<open>
  The SDK client is external.  It is modelled by one bucket, an association list from key to
  stored object in which the first entry of a key is the object (a key names one object), a
  log of the commands sent, and an environment that says which requests throw and what the
  store stamps on a new object.  The log has one entry for a call of \<open>listImages\<close>,
  whatever the number of pages it asks for.
\<close>

record stored_object =
  body :: buffer
  modified :: nat
  tag :: string

datatype s3_command =
  ListObjectsV2 string string
| GetObject string string
| PutObject string string buffer

record s3_state =
  objects :: "(string \<times> stored_object) list"
  sent :: "s3_command list"

record s3_env =
  list_throws :: "string \<Rightarrow> exn option"
  get_throws :: "string \<Rightarrow> exn option"
  get_no_body :: "string \<Rightarrow> bool"
  put_throws :: "string \<Rightarrow> exn option"
  put_time :: nat
  put_etag :: "buffer \<Rightarrow> string"
  elapsed :: nat

text \<open>An entry of \<open>Contents\<close> in a ListObjectsV2 response; every field is optional.\<close>

record ListedObject =
  Key :: "string option"
  Size :: "nat option"
  LastModified :: "nat option"
  ETag :: "string option"

definition list_contents :: "s3_state \<Rightarrow> string \<Rightarrow> ListedObject list" where
  "list_contents st pre =
     map (\<lambda>(k, ob). \<lparr>Key = Some k, Size = Some (length (body ob)),
                      LastModified = Some (modified ob), ETag = Some (tag ob)\<rparr>)
         (filter (\<lambda>(k, ob). startsWith k pre) (AList.clearjunk (objects st)))"

text \<open>The responses a listing is answered with, following the continuation tokens: pages of
  at most \<open>MaxKeys\<close> entries, at least one page.\<close>

fun paginate :: "nat \<Rightarrow> 'a list \<Rightarrow> 'a list list" where
  "paginate n xs =
     (if n = 0 \<or> length xs \<le> n then [xs] else take n xs # paginate n (drop n xs))"

declare paginate.simps [simp del]

section \<open>AWSS3Service (s3Service.ts)\<close>

text \<open>The constructor's set of supported extensions: each configured format in lower case,
  without a leading dot.\<close>

definition supportedExtensions :: "Config \<Rightarrow> string set" where
  "supportedExtensions cfg =
     set (map (\<lambda>format. (case toLowerCase format of
                            c # rest \<Rightarrow> if c = CHR ''.'' then rest else c # rest
                          | [] \<Rightarrow> []))
              (supportedFormats cfg))"

text \<open>\<^verbatim>\<open>key.split(".").pop()?.toLowerCase()\<close>, then membership; an empty extension is
  falsy.\<close>

definition isImageFile :: "Config \<Rightarrow> string \<Rightarrow> bool" where
  "isImageFile cfg k =
     (let extension = toLowerCase (last (split (CHR ''.'') k))
      in if extension \<noteq> [] then extension \<in> supportedExtensions cfg else False)"

text \<open>The body of the loop over \<open>response.Contents\<close>: an entry is pushed when its four
  fields are truthy and its key has a supported extension; quotes are removed from the ETag.\<close>

definition push_listed :: "Config \<Rightarrow> S3Object list \<Rightarrow> ListedObject \<Rightarrow> S3Object list" where
  "push_listed cfg images object =
     (case (Key object, Size object, LastModified object, ETag object) of
        (Some k, Some sz, Some lm, Some et) \<Rightarrow>
          if k \<noteq> [] \<and> sz \<noteq> 0 \<and> et \<noteq> [] \<and> isImageFile cfg k
          then images @ [\<lparr>key = k, size' = sz, lastModified = lm,
                          etag = filter (\<lambda>c. c \<noteq> CHR 0x22) et\<rparr>]
          else images
      | _ \<Rightarrow> images)"

text \<open>The do-while loop of \<open>listImages\<close> over the pages of the listing.\<close>

fun listImages_loop :: "Config \<Rightarrow> ListedObject list list \<Rightarrow> S3Object list \<Rightarrow> S3Object list" where
  "listImages_loop cfg [] images = images"
| "listImages_loop cfg (contents # later) images =
     listImages_loop cfg later (foldl (push_listed cfg) images contents)"

definition listImages ::
  "Config \<Rightarrow> s3_env \<Rightarrow> s3_state \<Rightarrow> string \<Rightarrow> string \<Rightarrow> (exn + S3Object list) \<times> s3_state" where
  "listImages cfg env st bucketName pre =
     (let st' = st\<lparr>sent := sent st @ [ListObjectsV2 bucketName pre]\<rparr>
      in case list_throws env pre of
           Some (S3ServiceException m) \<Rightarrow>
             (Inl (Error (''Failed to list images from bucket '' @ bucketName @ '': '' @ m
                          @ '', duration: '' @ toString (elapsed env))), st')
         | Some e \<Rightarrow> (Inl e, st')
         | None \<Rightarrow> (Inr (listImages_loop cfg (paginate 1000 (list_contents st pre)) []), st'))"

definition downloadImage ::
  "s3_env \<Rightarrow> s3_state \<Rightarrow> string \<Rightarrow> string \<Rightarrow> (exn + buffer) \<times> s3_state" where
  "downloadImage env st bucketName k =
     (let st' = st\<lparr>sent := sent st @ [GetObject bucketName k]\<rparr>;
          failure = (\<lambda>m. Error (''Failed to download image '' @ k @ '' from bucket ''
                                 @ bucketName @ '': '' @ m))
      in case get_throws env k of
           Some (S3ServiceException m) \<Rightarrow> (Inl (failure m), st')
         | Some e \<Rightarrow> (Inl e, st')
         | None \<Rightarrow>
             (case map_of (objects st) k of
                None \<Rightarrow> (Inl (failure ''The specified key does not exist.''), st')
              | Some ob \<Rightarrow>
                  if get_no_body env k
                  then (Inl (Error (''No body returned for object '' @ k @ '' in bucket ''
                                    @ bucketName)), st')
                  else (Inr (body ob), st')))"

definition uploadImage ::
  "s3_env \<Rightarrow> s3_state \<Rightarrow> string \<Rightarrow> string \<Rightarrow> buffer \<Rightarrow> (exn + unit) \<times> s3_state" where
  "uploadImage env st bucketName k buf =
     (let st' = st\<lparr>sent := sent st @ [PutObject bucketName k buf]\<rparr>
      in case put_throws env k of
           Some (S3ServiceException m) \<Rightarrow>
             (Inl (Error (''Failed to upload image '' @ k @ '' to bucket '' @ bucketName
                          @ '': '' @ m)), st')
         | Some e \<Rightarrow> (Inl e, st')
         | None \<Rightarrow>
             (Inr (), st'\<lparr>objects := AList.update k
                            \<lparr>body = buf, modified = put_time env, tag = put_etag env buf\<rparr>
                            (objects st')\<rparr>))"

section \<open>The per-item pipeline (convertionService.ts, processImage)\<close>

text \<open>The image processor is an interface; each method returns or throws.\<close>

record ImageProcessor =
  validateImageFormat :: "buffer \<Rightarrow> exn + bool"
  getImageMetadata :: "buffer \<Rightarrow> exn + ImageMetadata"
  convertToWebP :: "buffer \<Rightarrow> nat \<Rightarrow> exn + buffer"

text \<open>The fields of \<open>BatchConversionService\<close> that do not change during a run.\<close>

record Service =
  config :: Config
  dryRun :: bool

text \<open>Everything a run can read or change: the store, and the tracker with its files.\<close>

record world =
  s3 :: s3_state
  ledger :: tracker_state
  disk :: fs_state

definition skipIfExists :: "Service \<Rightarrow> s3_env \<Rightarrow> s3_state \<Rightarrow> string \<Rightarrow> bool \<times> s3_state" where
  "skipIfExists svc env st tgtKey =
     (case listImages (config svc) env st (targetBucket (config svc)) tgtKey of
        (Inr images, st') \<Rightarrow> (list_ex (\<lambda>img. key img = tgtKey) images, st')
      | (Inl e, st') \<Rightarrow> (False, st'))"

text \<open>The catch block of \<open>processImage\<close>.\<close>

definition caught :: "s3_env \<Rightarrow> ConversionResult \<Rightarrow> exn \<Rightarrow> ConversionResult" where
  "caught env result e = result\<lparr>error := Some (errorMessage e), processingTime := elapsed env\<rparr>"

text \<open>
  \<open>processImage\<close>.  The upload metadata (formatted sizes, ratio, quality and a time stamp)
  is not kept by the store model.  With \<open>originalSize = 0\<close> the JavaScript quotient is NaN
  or an infinity, which the model does not represent.
\<close>

definition processImage ::
  "Service \<Rightarrow> s3_env \<Rightarrow> ImageProcessor \<Rightarrow> world \<Rightarrow> S3Object \<Rightarrow> ConversionResult \<times> world" where
  "processImage svc env ip w s3Object =
     (let srcKey = key s3Object;
          tgtKey = generateTargetKey srcKey;
          result = \<lparr>sourceKey = srcKey, targetKey = tgtKey,
                    originalSize = size' s3Object, convertedSize = 0, compressionRatio = 0,
                    processingTime = 0, status = Failed, error = None\<rparr>
      in case skipIfExists svc env (s3 w) tgtKey of
           (True, st1) \<Rightarrow>
             (result\<lparr>status := Skipped, processingTime := elapsed env\<rparr>, w\<lparr>s3 := st1\<rparr>)
         | (False, st1) \<Rightarrow>
             (case downloadImage env st1 (targetBucket (config svc)) srcKey of
                (Inl e, st2) \<Rightarrow> (caught env result e, w\<lparr>s3 := st2\<rparr>)
              | (Inr imageBuffer, st2) \<Rightarrow>
                  (case validateImageFormat ip imageBuffer of
                     Inl e \<Rightarrow> (caught env result e, w\<lparr>s3 := st2\<rparr>)
                   | Inr False \<Rightarrow>
                       (result\<lparr>error := Some ''Unsupported or invalid image format'',
                               processingTime := elapsed env\<rparr>, w\<lparr>s3 := st2\<rparr>)
                   | Inr True \<Rightarrow>
                       (case getImageMetadata ip imageBuffer of
                          Inl e \<Rightarrow> (caught env result e, w\<lparr>s3 := st2\<rparr>)
                        | Inr metadata \<Rightarrow>
                            (case convertToWebP ip imageBuffer (quality (config svc)) of
                               Inl e \<Rightarrow> (caught env result e, w\<lparr>s3 := st2\<rparr>)
                             | Inr webpBuffer \<Rightarrow>
                                 (let result1 = result\<lparr>convertedSize := length webpBuffer\<rparr>;
                                      result2 = result1\<lparr>compressionRatio :=
                                        (real (originalSize result1) - real (convertedSize result1))
                                          / real (originalSize result1)\<rparr>
                                  in if \<not> dryRun svc
                                     then (case uploadImage env st2 (targetBucket (config svc))
                                                 tgtKey webpBuffer of
                                             (Inl e, st3) \<Rightarrow> (caught env result2 e, w\<lparr>s3 := st3\<rparr>)
                                           | (Inr u, st3) \<Rightarrow>
                                               (result2\<lparr>status := Success,
                                                        processingTime := elapsed env\<rparr>,
                                                w\<lparr>s3 := st3\<rparr>))
                                     else (result2\<lparr>status := Success,
                                                   processingTime := elapsed env\<rparr>,
                                           w\<lparr>s3 := st2\<rparr>)))))))"

section \<open>The batch scheduler (convertionService.ts)\<close>

text \<open>A JavaScript Set of strings that is only added to, deleted from and sized: the list of
  its members in insertion order.\<close>

definition set_add :: "string \<Rightarrow> string list \<Rightarrow> string list" where
  "set_add x xs = (if x \<in> set xs then xs else xs @ [x])"

definition set_delete :: "string \<Rightarrow> string list \<Rightarrow> string list" where
  "set_delete x xs = removeAll x xs"

record ProcessingQueue =
  pending :: "S3Object list"
  processing :: "string list"
  completed :: "string list"
  failed_q :: "string list"

text \<open>
  The state of \<open>processConcurrentBatches\<close>: the queue, the report being filled, the map
  \<open>activePromises\<close> (an association list in insertion order, from key to the number of the
  promise it holds), and every promise started so far, in order of start, with the image it
  works on and whether it has settled.
\<close>

record scheduler =
  processingQueue :: ProcessingQueue
  report :: ConversionReport
  activePromises :: "(string \<times> nat) list"
  promises :: "(S3Object \<times> bool) list"

text \<open>
  \<open>processImageWithTracking\<close>, from the point where \<open>await this.processImage(image)\<close> has
  produced its outcome: a result, or a thrown value (\<open>Inl\<close>).  \<open>if (result.error)\<close> holds
  for a non-empty message.
\<close>

definition processImageWithTracking ::
  "S3Object \<Rightarrow> exn + ConversionResult \<Rightarrow> ConversionReport \<times> ProcessingQueue
     \<Rightarrow> ConversionResult \<times> ConversionReport \<times> ProcessingQueue" where
  "processImageWithTracking img outcome rq =
     (let rep = fst rq; q = snd rq
      in case outcome of
           Inr result \<Rightarrow>
             (case status result of
                Success \<Rightarrow>
                  (result,
                   rep\<lparr>successful := successful rep + 1,
                       totalSizeBefore := totalSizeBefore rep + originalSize result,
                       totalSizeAfter := totalSizeAfter rep + convertedSize result\<rparr>,
                   q\<lparr>completed := set_add (key img) (completed q)\<rparr>)
              | Failed \<Rightarrow>
                  (result,
                   rep\<lparr>failed := failed rep + 1,
                       errors := (case error result of
                                    Some m \<Rightarrow> if m \<noteq> [] then errors rep @ [sourceKey result @ '': '' @ m]
                                              else errors rep
                                  | None \<Rightarrow> errors rep)\<rparr>,
                   q\<lparr>failed_q := set_add (key img) (failed_q q)\<rparr>)
              | Skipped \<Rightarrow>
                  (result,
                   rep\<lparr>skipped := skipped rep + 1\<rparr>,
                   q\<lparr>completed := set_add (key img) (completed q)\<rparr>))
         | Inl e \<Rightarrow>
             (\<lparr>sourceKey = key img, targetKey = generateTargetKey (key img),
               originalSize = size' img, convertedSize = 0, compressionRatio = 0,
               processingTime = 0, status = Failed, error = Some (errorMessage e)\<rparr>,
              rep\<lparr>failed := failed rep + 1,
                  errors := errors rep @ [key img @ '': '' @ errorMessage e]\<rparr>,
              q\<lparr>failed_q := set_add (key img) (failed_q q)\<rparr>))"

text \<open>
  What can happen next while \<open>processConcurrentBatches\<close> runs.  The pipelines run
  concurrently with the loop, so a run is described by the order of these events:
  \<^item> \<open>Dispatch\<close>: one turn of the inner \<open>while\<close> loop (shift an image, add its key to
    \<open>processing\<close>, start its promise, store the promise under the key);
  \<^item> \<open>Settle n outcome\<close>: the promise started \<open>n\<close>-th finishes, its pipeline having
    produced \<open>outcome\<close>;
  \<^item> \<open>Race k\<close>: \<open>Promise.race\<close> answers \<open>k\<close>, and \<open>k\<close> is deleted from
    \<open>activePromises\<close> and \<open>processing\<close>.
\<close>

datatype event = Dispatch | Settle nat "exn + ConversionResult" | Race string

text \<open>
  One event.  The inner loop has no test other than \<open>pending.length > 0\<close>, so a dispatch is
  possible whenever an image is pending.  The race is reached only once the inner loop has
  emptied \<open>pending\<close>, and answers the key of an entry whose promise has settled.  \<open>None\<close>: the
  event cannot happen in this state.
\<close>

fun step :: "Service \<Rightarrow> event \<Rightarrow> scheduler \<Rightarrow> scheduler option" where
  "step svc Dispatch s =
     (case pending (processingQueue s) of
        [] \<Rightarrow> None
      | img # rest \<Rightarrow>
          Some (s\<lparr>processingQueue := (processingQueue s)
                     \<lparr>pending := rest,
                      processing := set_add (key img) (processing (processingQueue s))\<rparr>,
                  promises := promises s @ [(img, False)],
                  activePromises :=
                    AList.update (key img) (length (promises s)) (activePromises s)\<rparr>))"
| "step svc (Settle n outcome) s =
     (if n < length (promises s) \<and> \<not> snd (promises s ! n)
      then (let img = fst (promises s ! n);
                tracked = processImageWithTracking img outcome (report s, processingQueue s)
            in Some (s\<lparr>report := fst (snd tracked),
                       processingQueue := snd (snd tracked),
                       promises := (promises s)[n := (img, True)]\<rparr>))
      else None)"
| "step svc (Race k) s =
     (if pending (processingQueue s) = []
      then (case map_of (activePromises s) k of
              None \<Rightarrow> None
            | Some n \<Rightarrow>
                if n < length (promises s) \<and> snd (promises s ! n)
                then Some (s\<lparr>activePromises := AList.delete k (activePromises s),
                             processingQueue := (processingQueue s)
                               \<lparr>processing := set_delete k (processing (processingQueue s))\<rparr>\<rparr>)
                else None)
      else None)"

text \<open>The test of the outer \<open>while\<close> loop, negated.\<close>

definition finished :: "scheduler \<Rightarrow> bool" where
  "finished s = (pending (processingQueue s) = [] \<and> activePromises s = [])"

text \<open>The events of a run in order, none of them after the loop has ended.\<close>

fun steps :: "Service \<Rightarrow> event list \<Rightarrow> scheduler \<Rightarrow> scheduler option" where
  "steps svc [] s = Some s"
| "steps svc (e # es) s =
     (if finished s then None
      else (case step svc e s of None \<Rightarrow> None | Some s' \<Rightarrow> steps svc es s'))"

text \<open>\<open>processConcurrentBatches\<close> returns when the events have led to the end of the loop;
  \<open>None\<close>: the events do not describe a complete run.\<close>

definition processConcurrentBatches ::
  "Service \<Rightarrow> event list \<Rightarrow> scheduler \<Rightarrow> scheduler option" where
  "processConcurrentBatches svc evs s =
     (case steps svc evs s of
        None \<Rightarrow> None
      | Some s' \<Rightarrow> if finished s' then Some s' else None)"

definition initial_report :: ConversionReport where
  "initial_report =
     \<lparr>totalImages = 0, successful = 0, failed = 0, skipped = 0, totalSizeBefore = 0,
      totalSizeAfter = 0, averageCompressionRatio = 0, processingDuration = 0, errors = []\<rparr>"

definition initial_scheduler :: "S3Object list \<Rightarrow> scheduler" where
  "initial_scheduler images =
     \<lparr>processingQueue = \<lparr>pending = images, processing = [], completed = [], failed_q = []\<rparr>,
      report = initial_report, activePromises = [], promises = []\<rparr>"

text \<open>
  \<open>processAllImages\<close>, for the events \<open>evs\<close> of its scheduling loop.  \<open>Some\<close> is the report
  returned; the function never throws.
\<close>

definition processAllImages ::
  "Service \<Rightarrow> s3_env \<Rightarrow> s3_state \<Rightarrow> event list \<Rightarrow> ConversionReport option" where
  "processAllImages svc env st evs =
     (case fst (listImages (config svc) env st (targetBucket (config svc)) (prefix (config svc))) of
        Inl e \<Rightarrow>
          Some (initial_report
                  \<lparr>errors := errors initial_report @ [''Batch conversion failed: '' @ errorMessage e],
                   processingDuration := elapsed env\<rparr>)
      | Inr images \<Rightarrow>
          if length images = 0 then Some (initial_report\<lparr>processingDuration := elapsed env\<rparr>)
          else (case processConcurrentBatches svc evs (initial_scheduler images) of
                  None \<Rightarrow> None
                | Some s \<Rightarrow>
                    (let rep = report s;
                         rep' = (if successful rep > 0 \<and> totalSizeBefore rep > 0
                                 then rep\<lparr>averageCompressionRatio :=
                                        (real (totalSizeBefore rep) - real (totalSizeAfter rep))
                                          / real (totalSizeBefore rep)\<rparr>
                                 else rep)
                     in Some (rep'\<lparr>processingDuration := elapsed env\<rparr>))))"

section \<open>The conversion tracker (conversionTracker.ts)\<close>

text \<open>
  \<open>JSON.stringify\<close> and \<open>JSON.parse\<close> are built in; the tracker is modelled for any
  pair of them.  \<open>parse_record line\<close> is \<open>JSON.parse(line)\<close> followed by the read of
  \<open>record.sourceKey\<close>; \<open>None\<close> when either throws.  \<open>parse_records data\<close> is
  \<open>JSON.parse(data)\<close> for the tracking file, an array; \<open>None\<close> when it throws.  An
  element of that array is a record, or a value such as \<open>null\<close> whose \<open>sourceKey\<close>
  cannot be read (\<open>None\<close>): a loop that reads the keys throws when it reaches it.
\<close>

type_synonym json_element = "ConversionRecord option"

record json =
  stringify_record :: "ConversionRecord \<Rightarrow> string"
  parse_record :: "string \<Rightarrow> ConversionRecord option"
  stringify_records :: "json_element list \<Rightarrow> string"
  parse_records :: "string \<Rightarrow> json_element list option"

text \<open>The records a \<open>forEach\<close> that reads the keys gets through before it throws (all of
  them when no element throws); what it did for them stays done.\<close>

fun before_throw :: "json_element list \<Rightarrow> ConversionRecord list" where
  "before_throw [] = []"
| "before_throw (None # elements) = []"
| "before_throw (Some record # elements) = record # before_throw elements"

text \<open>Which file operations throw (an error other than ENOENT, for the reads).\<close>

record fs_env =
  mkdir_throws :: bool
  read_main_throws :: bool
  read_log_throws :: bool
  write_main_throws :: bool
  write_log_throws :: bool
  append_log_throws :: bool

definition new_tracker :: tracker_state where
  "new_tracker = \<lparr>convertedKeys = {}, isLoaded = False, writeQueue = [], isWriting = False\<rparr>"

text \<open>\<^verbatim>\<open>data.trim().split('\n').filter(line => line.trim())\<close>\<close>

definition journal_lines :: "string \<Rightarrow> string list" where
  "journal_lines data = filter (\<lambda>line. trim line \<noteq> []) (split (CHR 0x0A) (trim data))"

text \<open>\<open>loadFromMainFile\<close>: every error is caught; the keys added before an element
  throws stay in the set.\<close>

definition loadFromMainFile ::
  "json \<Rightarrow> fs_env \<Rightarrow> tracker_state \<times> fs_state \<Rightarrow> tracker_state \<times> fs_state" where
  "loadFromMainFile js fe tf =
     (let t = fst tf; fs = snd tf
      in if read_main_throws fe then tf
         else (case trackingFile fs of
                 None \<Rightarrow> tf
               | Some data \<Rightarrow>
                   (case parse_records js data of
                      None \<Rightarrow> tf
                    | Some records \<Rightarrow>
                        (t\<lparr>convertedKeys := foldl (\<lambda>keys record. insert (sourceKey_rec record) keys)
                                                 (convertedKeys t) (before_throw records)\<rparr>, fs))))"

text \<open>The test-and-push both loops of \<open>consolidateFiles\<close> apply to a record.\<close>

definition consolidate_push ::
  "ConversionRecord list \<times> string set \<Rightarrow> ConversionRecord \<Rightarrow> ConversionRecord list \<times> string set" where
  "consolidate_push acc record =
     (let allRecords = fst acc; seenKeys = snd acc
      in if sourceKey_rec record \<notin> seenKeys
         then (allRecords @ [record], insert (sourceKey_rec record) seenKeys)
         else acc)"

text \<open>
  \<open>consolidateFiles\<close>.  It returns nothing and catches every error; the Boolean tells
  whether the \<open>try\<close> block ran to its end (the consolidation is logged as done) or the
  outer \<open>catch\<close> block ran.  The inner \<open>catch\<close> around the tracking file takes every
  error for a missing file and goes on with the records pushed so far.
\<close>

definition consolidateFiles :: "json \<Rightarrow> fs_env \<Rightarrow> fs_state \<Rightarrow> bool \<times> fs_state" where
  "consolidateFiles js fe fs =
     (let fromMain =
            (if read_main_throws fe then ([], {})
             else (case trackingFile fs of
                     None \<Rightarrow> ([], {})
                   | Some mainData \<Rightarrow>
                       (case parse_records js mainData of
                          None \<Rightarrow> ([], {})
                        | Some mainRecords \<Rightarrow>
                            foldl consolidate_push ([], {}) (before_throw mainRecords))))
      in if read_log_throws fe then (False, fs)
         else (case appendLog fs of
                 None \<Rightarrow> (False, fs)
               | Some appendData \<Rightarrow>
                   (let allRecords =
                          fst (foldl (\<lambda>acc line. case parse_record js line of
                                                    None \<Rightarrow> acc
                                                  | Some record \<Rightarrow> consolidate_push acc record)
                                     fromMain (journal_lines appendData))
                    in if write_main_throws fe then (False, fs)
                       else (let fs1 = fs\<lparr>trackingFile :=
                                            Some (stringify_records js (map Some allRecords))\<rparr>
                             in if write_log_throws fe then (False, fs1)
                                else (True, fs1\<lparr>appendLog := Some []\<rparr>)))))"

definition loadFromAppendLog ::
  "json \<Rightarrow> fs_env \<Rightarrow> tracker_state \<times> fs_state \<Rightarrow> tracker_state \<times> fs_state" where
  "loadFromAppendLog js fe tf =
     (let t = fst tf; fs = snd tf
      in if read_log_throws fe then tf
         else (case appendLog fs of
                 None \<Rightarrow> tf
               | Some data \<Rightarrow>
                   (let lines = journal_lines data;
                        t' = t\<lparr>convertedKeys :=
                                 foldl (\<lambda>keys line. case parse_record js line of
                                                       None \<Rightarrow> keys
                                                     | Some record \<Rightarrow> insert (sourceKey_rec record) keys)
                                       (convertedKeys t) lines\<rparr>
                    in if length lines > 0 then (t', snd (consolidateFiles js fe fs))
                       else (t', fs))))"

definition loadConvertedKeys ::
  "json \<Rightarrow> fs_env \<Rightarrow> tracker_state \<times> fs_state \<Rightarrow> tracker_state \<times> fs_state" where
  "loadConvertedKeys js fe tf =
     (let t = fst tf; fs = snd tf
      in if isLoaded t then tf
         else if mkdir_throws fe then (t\<lparr>convertedKeys := {}, isLoaded := True\<rparr>, fs)
         else (let tf2 = loadFromAppendLog js fe (loadFromMainFile js fe tf)
               in ((fst tf2)\<lparr>isLoaded := True\<rparr>, snd tf2)))"

definition isConverted ::
  "json \<Rightarrow> fs_env \<Rightarrow> string \<Rightarrow> tracker_state \<times> fs_state \<Rightarrow> bool \<times> tracker_state \<times> fs_state" where
  "isConverted js fe k tf =
     (let tf' = loadConvertedKeys js fe tf in (k \<in> convertedKeys (fst tf'), tf'))"

definition getConvertedKeys ::
  "json \<Rightarrow> fs_env \<Rightarrow> tracker_state \<times> fs_state \<Rightarrow> string set \<times> tracker_state \<times> fs_state" where
  "getConvertedKeys js fe tf =
     (let tf' = loadConvertedKeys js fe tf in (convertedKeys (fst tf'), tf'))"

text \<open>\<open>appendToLog\<close>: the line is appended (the file is created when absent), or the
  error is logged and thrown again.\<close>

definition appendToLog :: "json \<Rightarrow> fs_env \<Rightarrow> ConversionRecord \<Rightarrow> fs_state \<Rightarrow> exn + fs_state" where
  "appendToLog js fe record fs =
     (let logLine = stringify_record js record @ [CHR 0x0A]
      in if append_log_throws fe then Inl (Error ''appendFile failed'')
         else Inr (fs\<lparr>appendLog := Some ((case appendLog fs of None \<Rightarrow> [] | Some d \<Rightarrow> d) @ logLine)\<rparr>))"

text \<open>
  \<open>processWriteQueue\<close> in two parts.  The first runs at once when the function is called,
  up to its first \<open>await\<close>: the guard, then \<open>isWriting = true\<close>, the copy of the queue
  (\<open>recordsToProcess\<close>, which the call keeps) and the emptying of the queue; \<open>None\<close> when
  the guard returns.  The second is the rest of the call, for the records it keeps: the
  tracking file is read and written back with them, or they are put back at the head of
  the queue, and \<open>isWriting\<close> is reset.
\<close>

definition processWriteQueue_start ::
  "tracker_state \<Rightarrow> ConversionRecord list option \<times> tracker_state" where
  "processWriteQueue_start t =
     (if isWriting t \<or> length (writeQueue t) = 0 then (None, t)
      else (Some (writeQueue t), t\<lparr>isWriting := True, writeQueue := []\<rparr>))"

definition processWriteQueue_rest ::
  "json \<Rightarrow> fs_env \<Rightarrow> ConversionRecord list \<Rightarrow> tracker_state \<times> fs_state
     \<Rightarrow> tracker_state \<times> fs_state" where
  "processWriteQueue_rest js fe recordsToProcess tf =
     (let t = fst tf; fs = snd tf;
          existingRecords =
            (if read_main_throws fe then []
             else (case trackingFile fs of
                     None \<Rightarrow> []
                   | Some data \<Rightarrow>
                       (case parse_records js data of None \<Rightarrow> [] | Some rs \<Rightarrow> rs)))
      in if write_main_throws fe
         then (t\<lparr>writeQueue := recordsToProcess @ writeQueue t, isWriting := False\<rparr>, fs)
         else (t\<lparr>isWriting := False\<rparr>,
               fs\<lparr>trackingFile :=
                    Some (stringify_records js (existingRecords @ map Some recordsToProcess))\<rparr>))"

text \<open>A call of \<open>processWriteQueue\<close> that is awaited: both parts in a row.\<close>

definition processWriteQueue ::
  "json \<Rightarrow> fs_env \<Rightarrow> tracker_state \<times> fs_state \<Rightarrow> tracker_state \<times> fs_state" where
  "processWriteQueue js fe tf =
     (case processWriteQueue_start (fst tf) of
        (None, t) \<Rightarrow> tf
      | (Some recordsToProcess, t) \<Rightarrow> processWriteQueue_rest js fe recordsToProcess (t, snd tf))"

text \<open>
  \<open>markAsConverted\<close>.  When \<open>appendToLog\<close> throws, the call throws, and the changes
  already made in memory stay.  \<open>processWriteQueue\<close> is called without \<open>await\<close>: only its
  first part runs within the call, and the last component of the result is the records
  that the started call keeps, for \<open>processWriteQueue_rest\<close> to deal with later (\<open>None\<close>
  when no call was started or its guard returned).
\<close>

definition markAsConverted ::
  "json \<Rightarrow> fs_env \<Rightarrow> ConversionRecord \<Rightarrow> tracker_state \<times> fs_state
     \<Rightarrow> (exn + unit) \<times> tracker_state \<times> fs_state \<times> ConversionRecord list option" where
  "markAsConverted js fe record tf =
     (let tf1 = loadConvertedKeys js fe tf;
          t2 = (fst tf1)\<lparr>convertedKeys := insert (sourceKey_rec record) (convertedKeys (fst tf1)),
                         writeQueue := writeQueue (fst tf1) @ [record]\<rparr>
      in case appendToLog js fe record (snd tf1) of
           Inl e \<Rightarrow> (Inl e, t2, snd tf1, None)
         | Inr fs2 \<Rightarrow>
             if \<not> isWriting t2 \<and> length (writeQueue t2) \<ge> 100
             then (Inr (), snd (processWriteQueue_start t2), fs2, fst (processWriteQueue_start t2))
             else (Inr (), t2, fs2, None))"

definition flush :: "json \<Rightarrow> fs_env \<Rightarrow> tracker_state \<times> fs_state \<Rightarrow> tracker_state \<times> fs_state" where
  "flush js fe tf = (if length (writeQueue (fst tf)) > 0 then processWriteQueue js fe tf else tf)"

section \<open>Concrete inputs\<close>

text \<open>A configuration with the default formats, a store and a codec without failures, and
  one stored JPEG of 1000 bytes; the image processor answers with \<open>n\<close> bytes of WebP.\<close>

definition demo_config :: Config where
  "demo_config =
     \<lparr>targetBucket = ''my-webp-bucket'', prefix = [], quality = 80,
      supportedFormats = [''jpeg'', ''jpg'', ''png''], concurrency = 3\<rparr>"

definition demo_service :: Service where
  "demo_service = \<lparr>config = demo_config, dryRun = False\<rparr>"

definition demo_env :: s3_env where
  "demo_env =
     \<lparr>list_throws = (\<lambda>p. None), get_throws = (\<lambda>k. None), get_no_body = (\<lambda>k. False),
      put_throws = (\<lambda>k. None), put_time = 2, put_etag = (\<lambda>b. ''etag''), elapsed = 5\<rparr>"

definition failing_env :: s3_env where
  "failing_env = demo_env\<lparr>list_throws := (\<lambda>p. Some (S3ServiceException ''Access Denied''))\<rparr>"

definition demo_processor :: "nat \<Rightarrow> ImageProcessor" where
  "demo_processor n =
     \<lparr>validateImageFormat = (\<lambda>b. Inr True),
      getImageMetadata = (\<lambda>b. Inr \<lparr>originalFormat = ''jpeg'', width = 10, height = 10,
                                    fileSize = length b, lastModified_md = 0,
                                    contentType = ''image/jpeg''\<rparr>),
      convertToWebP = (\<lambda>b q. Inr (replicate n 0))\<rparr>"

definition demo_object :: S3Object where
  "demo_object = \<lparr>key = ''photo.jpg'', size' = 1000, lastModified = 1, etag = ''abc''\<rparr>"

definition demo_store :: s3_state where
  "demo_store =
     \<lparr>objects = [(''photo.jpg'', \<lparr>body = replicate 1000 0, modified = 1, tag = ''abc''\<rparr>)],
      sent = []\<rparr>"

definition demo_world :: world where
  "demo_world =
     \<lparr>s3 = demo_store, ledger = new_tracker, disk = \<lparr>trackingFile = None, appendLog = None\<rparr>\<rparr>"

definition demo_result :: ConversionResult where
  "demo_result =
     \<lparr>sourceKey = ''photo.jpg'', targetKey = ''photo.webp'', originalSize = 1000,
      convertedSize = 500, compressionRatio = 1 / 2, processingTime = 5, status = Success,
      error = None\<rparr>"

text \<open>Ten images with different keys, as a listing gives them.\<close>

definition ten_images :: "S3Object list" where
  "ten_images =
     map (\<lambda>i. \<lparr>key = ''img'' @ toString i @ ''.jpg'', size' = 1000, lastModified = 1,
                etag = ''abc''\<rparr>) [0..<10]"

text \<open>A complete run over the one stored image: dispatch, the pipeline succeeds, the race
  answers its key.\<close>

definition demo_events :: "event list" where
  "demo_events = [Dispatch, Settle 0 (Inr demo_result), Race ''photo.jpg'']"

text \<open>Ten dispatches, and a complete run that starts with them.\<close>

definition ten_dispatches :: "event list" where
  "ten_dispatches = replicate 10 Dispatch"

definition ten_events :: "event list" where
  "ten_events =
     ten_dispatches @ map (\<lambda>i. Settle i (Inl NonError)) [0..<10]
       @ map (\<lambda>img. Race (key img)) ten_images"

text \<open>The pipeline run twice on the stored image, the second time in the world the first
  run left.\<close>

definition first_run :: "ConversionResult \<times> world" where
  "first_run = processImage demo_service demo_env (demo_processor 500) demo_world demo_object"

definition second_run :: "ConversionResult \<times> world" where
  "second_run = processImage demo_service demo_env (demo_processor 500) (snd first_run) demo_object"

text \<open>
  A codec for the examples.  It writes a record as its source key between braces and reads
  such a line back as a record with that key (a line with a brace inside the key, as two
  lines glued together have, does not parse); an array is written one element per line,
  \<open>null\<close> for an element that is no record.
\<close>

definition key_record :: "string \<Rightarrow> ConversionRecord" where
  "key_record k =
     \<lparr>sourceKey_rec = k, targetKey_rec = generateTargetKey k, convertedAt_rec = [],
      originalSize_rec = 0, convertedSize_rec = 0, compressionRatio_rec = 0\<rparr>"

definition demo_parse :: "string \<Rightarrow> ConversionRecord option" where
  "demo_parse line =
     (case line of
        [] \<Rightarrow> None
      | c # rest \<Rightarrow>
          if c = CHR ''{'' \<and> rest \<noteq> [] \<and> last rest = CHR ''}''
             \<and> CHR ''{'' \<notin> set (butlast rest) \<and> CHR ''}'' \<notin> set (butlast rest)
          then Some (key_record (butlast rest)) else None)"

definition demo_json :: json where
  "demo_json =
     \<lparr>stringify_record = (\<lambda>r. ''{'' @ sourceKey_rec r @ ''}''),
      parse_record = demo_parse,
      stringify_records =
        (\<lambda>elements. concat (map (\<lambda>element. case element of
                                     Some r \<Rightarrow> ''{'' @ sourceKey_rec r @ ''}'' @ [CHR 0x0A]
                                   | None \<Rightarrow> ''null'' @ [CHR 0x0A]) elements)),
      parse_records =
        (\<lambda>data. Some (map demo_parse (filter (\<lambda>line. line \<noteq> []) (split (CHR 0x0A) data))))\<rparr>"

definition no_faults :: fs_env where
  "no_faults =
     \<lparr>mkdir_throws = False, read_main_throws = False, read_log_throws = False,
      write_main_throws = False, write_log_throws = False, append_log_throws = False\<rparr>"

definition demo_record :: ConversionRecord where
  "demo_record =
     \<lparr>sourceKey_rec = ''photo.jpg'', targetKey_rec = ''photo.webp'',
      convertedAt_rec = ''2024-01-01T00:00:00.000Z'', originalSize_rec = 1000,
      convertedSize_rec = 500, compressionRatio_rec = 1 / 2\<rparr>"

text \<open>Files left by a crash in the middle of an append: the journal ends in a partial
  line.\<close>

definition crashed_disk :: fs_state where
  "crashed_disk = \<lparr>trackingFile = None, appendLog = Some ''{old.png''\<rparr>"

text \<open>A tracking file with one record and a journal with two, one of them the same.\<close>

definition two_files :: fs_state where
  "two_files =
     \<lparr>trackingFile = Some ''{a.jpg}\<newline>'',
      appendLog = Some ''{a.jpg}\<newline>{b.png}\<newline>''\<rparr>"

text \<open>A tracking file with one record and a journal with another, both complete; and file
  operations of which one fails: the read of the tracking file, or its write.\<close>

definition one_each :: fs_state where
  "one_each =
     \<lparr>trackingFile = Some ''{a.jpg}\<newline>'', appendLog = Some ''{b.png}\<newline>''\<rparr>"

definition read_fails :: fs_env where
  "read_fails = no_faults\<lparr>read_main_throws := True\<rparr>"

definition write_fails :: fs_env where
  "write_fails = no_faults\<lparr>write_main_throws := True\<rparr>"

section \<open>Auxiliary notions for the proofs\<close>

text \<open>The test and the object of \<open>push_listed\<close>, apart.\<close>

definition listed_ok :: "Config \<Rightarrow> ListedObject \<Rightarrow> bool" where
  "listed_ok cfg object =
     (case (Key object, Size object, LastModified object, ETag object) of
        (Some k, Some sz, Some lm, Some et) \<Rightarrow> k \<noteq> [] \<and> sz \<noteq> 0 \<and> et \<noteq> [] \<and> isImageFile cfg k
      | _ \<Rightarrow> False)"

definition listed_image :: "ListedObject \<Rightarrow> S3Object" where
  "listed_image object =
     \<lparr>key = the (Key object), size' = the (Size object), lastModified = the (LastModified object),
      etag = filter (\<lambda>c. c \<noteq> CHR 0x22) (the (ETag object))\<rparr>"

text \<open>The text of the journal (empty when the file is absent), the records its lines
  parse to, and the records of the tracking file (none when it is absent; \<open>None\<close> when its
  text does not parse or an element is no record).\<close>

definition journal_text :: "fs_state \<Rightarrow> string" where
  "journal_text fs = (case appendLog fs of None \<Rightarrow> [] | Some d \<Rightarrow> d)"

definition journal_records :: "json \<Rightarrow> fs_state \<Rightarrow> ConversionRecord list" where
  "journal_records js fs = List.map_filter (parse_record js) (journal_lines (journal_text fs))"

definition stored_records :: "json \<Rightarrow> fs_state \<Rightarrow> ConversionRecord list option" where
  "stored_records js fs =
     (case trackingFile fs of
        None \<Rightarrow> Some []
      | Some d \<Rightarrow> (case parse_records js d of None \<Rightarrow> None | Some elements \<Rightarrow> those elements))"

text \<open>A journal in which every line is complete: blank, or ending in a line feed.\<close>

definition journal_clean :: "string \<Rightarrow> bool" where
  "journal_clean d = (list_all is_space d \<or> last d = CHR 0x0A)"

text \<open>A line as \<open>JSON.stringify\<close> writes an object: not empty, no white space at its
  ends, no line feed inside.\<close>

definition line_ok :: "string \<Rightarrow> bool" where
  "line_ok l = (l \<noteq> [] \<and> \<not> is_space (hd l) \<and> \<not> is_space (last l) \<and> CHR 0x0A \<notin> set l)"

text \<open>
  When \<open>markAsConverted\<close> may append: the journal has complete lines only, or the tracker
  has yet to load and its load does not fail (the load then consolidates whatever the
  journal holds and empties it).
\<close>

definition journal_ready :: "fs_env \<Rightarrow> tracker_state \<Rightarrow> fs_state \<Rightarrow> bool" where
  "journal_ready fe t fs =
     (journal_clean (journal_text fs)
      \<or> (\<not> isLoaded t \<and> \<not> mkdir_throws fe \<and> \<not> read_log_throws fe
          \<and> \<not> write_main_throws fe \<and> \<not> write_log_throws fe))"

text \<open>The number of results folded into a report, and of promises that have settled.\<close>

definition counted :: "ConversionReport \<Rightarrow> nat" where
  "counted rep = successful rep + failed rep + skipped rep"

definition settled_count :: "scheduler \<Rightarrow> nat" where
  "settled_count s = length (filter snd (promises s))"

text \<open>
  The invariant of the scheduling loop for a listing of \<open>N\<close> images with different keys:
  one result is counted per settled promise; every image is pending or has a promise; a
  promise that has not settled is the one \<open>activePromises\<close> holds under its key; and no key
  occurs twice among the pending images and the promises.
\<close>

definition sched_inv :: "nat \<Rightarrow> scheduler \<Rightarrow> bool" where
  "sched_inv N s =
     (counted (report s) = settled_count s
      \<and> length (promises s) + length (pending (processingQueue s)) = N
      \<and> (\<forall>n < length (promises s).
            \<not> snd (promises s ! n) \<longrightarrow>
              map_of (activePromises s) (key (fst (promises s ! n))) = Some n)
      \<and> distinct (map key (pending (processingQueue s)) @ map (key \<circ> fst) (promises s)))"

text \<open>Every entry of \<open>activePromises\<close> holds a promise that was started.\<close>

definition active_ok :: "scheduler \<Rightarrow> bool" where
  "active_ok s =
     (distinct (map fst (activePromises s))
      \<and> (\<forall>kn \<in> set (activePromises s). snd kn < length (promises s)))"

text \<open>What is left to do: it decreases with every event.\<close>

definition work_left :: "scheduler \<Rightarrow> nat" where
  "work_left s =
     3 * length (pending (processingQueue s))
     + length (filter (\<lambda>p. \<not> snd p) (promises s))
     + length (activePromises s)"

section \<open>Facts about the string helpers\<close>

lemma lastIndexOf_scan_absent:
  "c \<notin> set s \<Longrightarrow> lastIndexOf_scan c s i found = found"
  by (induction s arbitrary: i found) auto

lemma lastIndexOf_scan_append:
  "lastIndexOf_scan c (p @ q) i found =
     lastIndexOf_scan c q (i + int (length p)) (lastIndexOf_scan c p i found)"
  by (induction p arbitrary: i found) (auto simp: algebra_simps)

lemma lastIndexOf_absent: "c \<notin> set s \<Longrightarrow> lastIndexOf s c = - 1"
  by (simp add: lastIndexOf_def lastIndexOf_scan_absent)

lemma lastIndexOf_last:
  "c \<notin> set t \<Longrightarrow> lastIndexOf (p @ c # t) c = int (length p)"
  by (simp add: lastIndexOf_def lastIndexOf_scan_append lastIndexOf_scan_absent)

lemma substring_prefix: "substring (p @ q) 0 (int (length p)) = p"
  by (simp add: substring_def Let_def min_def max_def)

lemma split_not_Nil: "split c s \<noteq> []"
  by (induction s) (auto split: list.splits)

lemma split_no_separator: "c \<notin> set s \<Longrightarrow> split c s = [s]"
  by (induction s) (auto split: list.splits)

lemma split_append_separator: "split c (p @ c # t) = split c p @ split c t"
proof (induction p)
  case Nil
  show ?case by simp
next
  case (Cons x p)
  obtain w ws where w: "split c p = w # ws"
    using split_not_Nil [of c p] by (cases "split c p") auto
  with Cons show ?case by simp
qed

lemma last_split_suffix:
  "c \<notin> set t \<Longrightarrow> last (split c (p @ c # t)) = t"
  by (simp add: split_append_separator split_no_separator)

lemma generateTargetKey_no_dot:
  "CHR ''.'' \<notin> set k \<Longrightarrow> generateTargetKey k = k @ ''.webp''"
  by (simp add: generateTargetKey_def lastIndexOf_absent)

lemma generateTargetKey_dot:
  "CHR ''.'' \<notin> set t \<Longrightarrow> generateTargetKey (p @ CHR ''.'' # t) = p @ ''.webp''"
  by (simp add: generateTargetKey_def lastIndexOf_last substring_prefix)

section \<open>The scheduling loop keeps its invariant\<close>

lemma filter_update_settle:
  "n < length ps \<Longrightarrow> \<not> snd (ps ! n) \<Longrightarrow>
     length (filter snd (ps[n := (x, True)])) = Suc (length (filter snd ps))"
proof (induction ps arbitrary: n)
  case Nil then show ?case by simp
next
  case (Cons p ps)
  then show ?case by (cases n) auto
qed

lemma filter_update_unsettled:
  "n < length ps \<Longrightarrow> \<not> snd (ps ! n) \<Longrightarrow>
     Suc (length (filter (\<lambda>p. \<not> snd p) (ps[n := (x, True)]))) = length (filter (\<lambda>p. \<not> snd p) ps)"
proof (induction ps arbitrary: n)
  case Nil then show ?case by simp
next
  case (Cons p ps)
  then show ?case by (cases n) auto
qed

lemma counted_tracking:
  "counted (fst (snd (processImageWithTracking img outcome (rep, q)))) = Suc (counted rep)"
  by (auto simp: processImageWithTracking_def counted_def Let_def split: sum.splits status.splits option.splits)

lemma totalImages_tracking:
  "totalImages (fst (snd (processImageWithTracking img outcome (rep, q)))) = totalImages rep"
  by (auto simp: processImageWithTracking_def Let_def split: sum.splits status.splits option.splits)

lemma pending_tracking:
  "pending (snd (snd (processImageWithTracking img outcome (rep, q)))) = pending q"
  by (auto simp: processImageWithTracking_def Let_def split: sum.splits status.splits option.splits)

lemma map_fst_update_same:
  "n < length ps \<Longrightarrow> map (f \<circ> fst) (ps[n := (fst (ps ! n), b)]) = map (f \<circ> fst) ps"
  by (simp add: list_eq_iff_nth_eq nth_list_update)

lemma sched_inv_Dispatch:
  assumes "sched_inv N s" and "step svc Dispatch s = Some s'"
  shows "sched_inv N s'"
proof -
  from assms(2) obtain img rest where p: "pending (processingQueue s) = img # rest"
    and s': "s' = s\<lparr>processingQueue := (processingQueue s)
                     \<lparr>pending := rest,
                      processing := set_add (key img) (processing (processingQueue s))\<rparr>,
                  promises := promises s @ [(img, False)],
                  activePromises :=
                    AList.update (key img) (length (promises s)) (activePromises s)\<rparr>"
    by (auto split: list.splits)
  from assms(1) have c: "counted (report s) = settled_count s"
    and l: "length (promises s) + length (pending (processingQueue s)) = N"
    and a: "\<And>n. n < length (promises s) \<Longrightarrow> \<not> snd (promises s ! n) \<Longrightarrow>
              map_of (activePromises s) (key (fst (promises s ! n))) = Some n"
    and d: "distinct (map key (pending (processingQueue s)) @ map (key \<circ> fst) (promises s))"
    by (auto simp: sched_inv_def)
  have fresh: "key (fst (promises s ! n)) \<noteq> key img" if "n < length (promises s)" for n
  proof -
    have "(key \<circ> fst) (promises s ! n) \<in> (key \<circ> fst) ` set (promises s)"
      using that by (intro imageI nth_mem)
    then have "key (fst (promises s ! n)) \<in> set (map (key \<circ> fst) (promises s))"
      by simp
    moreover from d p have "key img \<notin> set (map (key \<circ> fst) (promises s))"
      by simp
    ultimately show ?thesis by metis
  qed
  have 1: "counted (report s') = settled_count s'"
    using c by (simp add: s' settled_count_def)
  have 2: "length (promises s') + length (pending (processingQueue s')) = N"
    using l p by (simp add: s')
  have 3: "map_of (activePromises s') (key (fst (promises s' ! n))) = Some n"
    if "n < length (promises s')" "\<not> snd (promises s' ! n)" for n
  proof (cases "n < length (promises s)")
    case True
    then show ?thesis using that a [of n] fresh [of n]
      by (simp add: s' nth_append update_conv')
  next
    case False
    with that have "n = length (promises s)" by (simp add: s')
    then show ?thesis by (simp add: s' update_conv')
  qed
  have 4: "distinct (map key (pending (processingQueue s')) @ map (key \<circ> fst) (promises s'))"
    using d p by (auto simp: s')
  show ?thesis using 1 2 3 4 by (simp add: sched_inv_def)
qed

lemma sched_inv_Settle:
  assumes "sched_inv N s" and "step svc (Settle n outcome) s = Some s'"
  shows "sched_inv N s'"
proof -
  define tracked where
    "tracked = processImageWithTracking (fst (promises s ! n)) outcome (report s, processingQueue s)"
  from assms(2) have n: "n < length (promises s)" and u: "\<not> snd (promises s ! n)"
    and s': "s' = s\<lparr>report := fst (snd tracked), processingQueue := snd (snd tracked),
                    promises := (promises s)[n := (fst (promises s ! n), True)]\<rparr>"
    by (auto simp: tracked_def Let_def split: if_splits)
  from assms(1) have c: "counted (report s) = settled_count s"
    and l: "length (promises s) + length (pending (processingQueue s)) = N"
    and a: "\<And>m. m < length (promises s) \<Longrightarrow> \<not> snd (promises s ! m) \<Longrightarrow>
              map_of (activePromises s) (key (fst (promises s ! m))) = Some m"
    and d: "distinct (map key (pending (processingQueue s)) @ map (key \<circ> fst) (promises s))"
    by (auto simp: sched_inv_def)
  have pq: "pending (processingQueue s') = pending (processingQueue s)"
    by (simp add: s' tracked_def pending_tracking)
  have 1: "counted (report s') = settled_count s'"
    using c n u by (simp add: s' tracked_def counted_tracking settled_count_def filter_update_settle)
  have 2: "length (promises s') + length (pending (processingQueue s')) = N"
    using l pq by (simp add: s')
  have 3: "map_of (activePromises s') (key (fst (promises s' ! m))) = Some m"
    if "m < length (promises s')" "\<not> snd (promises s' ! m)" for m
  proof -
    from that have "m \<noteq> n" by (auto simp: s' nth_list_update)
    with that show ?thesis using a [of m] by (simp add: s' nth_list_update)
  qed
  have 4: "distinct (map key (pending (processingQueue s')) @ map (key \<circ> fst) (promises s'))"
    using d n pq by (simp add: s' map_fst_update_same del: map_map)
  show ?thesis using 1 2 3 4 by (simp add: sched_inv_def)
qed

lemma sched_inv_Race:
  assumes "sched_inv N s" and "step svc (Race k) s = Some s'"
  shows "sched_inv N s'"
proof -
  from assms(2) obtain n where e: "pending (processingQueue s) = []"
    and m: "map_of (activePromises s) k = Some n"
    and n: "n < length (promises s)" "snd (promises s ! n)"
    and s': "s' = s\<lparr>activePromises := AList.delete k (activePromises s),
                    processingQueue := (processingQueue s)
                      \<lparr>processing := set_delete k (processing (processingQueue s))\<rparr>\<rparr>"
    by (auto split: if_splits option.splits)
  from assms(1) have c: "counted (report s) = settled_count s"
    and l: "length (promises s) + length (pending (processingQueue s)) = N"
    and a: "\<And>m. m < length (promises s) \<Longrightarrow> \<not> snd (promises s ! m) \<Longrightarrow>
              map_of (activePromises s) (key (fst (promises s ! m))) = Some m"
    and d: "distinct (map key (pending (processingQueue s)) @ map (key \<circ> fst) (promises s))"
    by (auto simp: sched_inv_def)
  have 3: "map_of (activePromises s') (key (fst (promises s' ! j))) = Some j"
    if "j < length (promises s')" "\<not> snd (promises s' ! j)" for j
  proof -
    from that have j: "j < length (promises s)" "\<not> snd (promises s ! j)" by (simp_all add: s')
    then have "map_of (activePromises s) (key (fst (promises s ! j))) = Some j" by (rule a)
    moreover have "key (fst (promises s ! j)) \<noteq> k"
    proof
      assume "key (fst (promises s ! j)) = k"
      with a [OF j] m have "j = n" by simp
      with j n show False by simp
    qed
    ultimately show ?thesis by (simp add: s' delete_conv')
  qed
  show ?thesis using c l d 3 by (simp add: sched_inv_def s' settled_count_def)
qed

lemma sched_inv_step:
  "sched_inv N s \<Longrightarrow> step svc e s = Some s' \<Longrightarrow> sched_inv N s'"
  by (cases e) (auto intro: sched_inv_Dispatch sched_inv_Settle sched_inv_Race)

lemma sched_inv_steps:
  "sched_inv N s \<Longrightarrow> steps svc evs s = Some s' \<Longrightarrow> sched_inv N s'"
proof (induction evs arbitrary: s)
  case Nil then show ?case by simp
next
  case (Cons e evs)
  then show ?case by (auto split: if_splits option.splits dest: sched_inv_step)
qed

lemma sched_inv_initial:
  "distinct (map key images) \<Longrightarrow> sched_inv (length images) (initial_scheduler images)"
  by (simp add: sched_inv_def initial_scheduler_def initial_report_def counted_def settled_count_def)

lemma sched_inv_finished:
  assumes "sched_inv N s" and "finished s"
  shows "counted (report s) = N"
proof -
  from assms(2) have e: "pending (processingQueue s) = []" "activePromises s = []"
    by (simp_all add: finished_def)
  from assms(1) e have all: "\<forall>n < length (promises s). snd (promises s ! n)"
    by (auto simp: sched_inv_def)
  have "snd p" if "p \<in> set (promises s)" for p
    using that all by (metis in_set_conv_nth)
  then have "filter snd (promises s) = promises s"
    by (simp add: filter_id_conv)
  with assms(1) e show ?thesis by (simp add: sched_inv_def settled_count_def)
qed

section \<open>Every run of the scheduling loop can end\<close>

lemma totalImages_step:
  "step svc e s = Some s' \<Longrightarrow> totalImages (report s') = totalImages (report s)"
  by (cases e) (auto simp: totalImages_tracking Let_def split: list.splits if_splits option.splits)

lemma totalImages_steps:
  "steps svc evs s = Some s' \<Longrightarrow> totalImages (report s') = totalImages (report s)"
proof (induction evs arbitrary: s)
  case Nil then show ?case by simp
next
  case (Cons e evs)
  then show ?case by (auto split: if_splits option.splits dest: totalImages_step)
qed

lemma set_update_subset: "set (AList.update k v al) \<subseteq> insert (k, v) (set al)"
  by (induction al) auto

lemma set_delete_subset: "set (AList.delete k al) \<subseteq> set al"
  by (induction al) auto

lemma length_delete_less:
  "k \<in> fst ` set al \<Longrightarrow> length (AList.delete k al) < length al"
proof (induction al)
  case Nil then show ?case by simp
next
  case (Cons p al)
  show ?case
  proof (cases "fst p = k")
    case True
    then show ?thesis
      using length_delete_le [of k al] by (cases p) (simp add: less_Suc_eq_le)
  next
    case False
    with Cons show ?thesis by (cases p) auto
  qed
qed

lemma length_update_le: "length (AList.update k v al) \<le> Suc (length al)"
  by (induction al) auto

lemma active_ok_step:
  assumes "active_ok s" and "step svc e s = Some s'"
  shows "active_ok s'"
proof (cases e)
  case Dispatch
  from Dispatch assms(2) obtain img :: S3Object where
    s': "activePromises s' = AList.update (key img) (length (promises s)) (activePromises s)"
        "length (promises s') = Suc (length (promises s))"
    by (auto split: list.splits)
  have "snd kn < length (promises s')" if "kn \<in> set (activePromises s')" for kn
  proof -
    from that s' have "kn \<in> insert (key img, length (promises s)) (set (activePromises s))"
      using set_update_subset by fastforce
    with assms(1) s' show ?thesis by (auto simp: active_ok_def)
  qed
  with assms(1) s' show ?thesis by (simp add: active_ok_def distinct_update)
next
  case (Settle n outcome)
  with assms(2) have "activePromises s' = activePromises s"
    "length (promises s') = length (promises s)"
    by (auto simp: Let_def split: if_splits)
  with assms(1) show ?thesis by (simp add: active_ok_def)
next
  case (Race k)
  from Race assms(2) have
    s': "activePromises s' = AList.delete k (activePromises s)"
        "length (promises s') = length (promises s)"
    by (auto split: if_splits option.splits)
  have "snd kn < length (promises s')" if "kn \<in> set (activePromises s')" for kn
  proof -
    from that s' have "kn \<in> set (activePromises s)"
      using set_delete_subset by fastforce
    with assms(1) s' show ?thesis by (auto simp: active_ok_def)
  qed
  with assms(1) s' show ?thesis by (simp add: active_ok_def distinct_delete)
qed

lemma work_left_step:
  assumes "step svc e s = Some s'"
  shows "work_left s' < work_left s"
proof (cases e)
  case Dispatch
  with assms obtain img rest where p: "pending (processingQueue s) = img # rest"
    and s': "pending (processingQueue s') = rest"
        "promises s' = promises s @ [(img, False)]"
        "activePromises s' = AList.update (key img) (length (promises s)) (activePromises s)"
    by (auto split: list.splits)
  have "length (activePromises s') \<le> Suc (length (activePromises s))"
    by (simp add: s' length_update_le)
  with p s' show ?thesis by (simp add: work_left_def)
next
  case (Settle n outcome)
  with assms have n: "n < length (promises s)" "\<not> snd (promises s ! n)"
    by (auto split: if_splits)
  from Settle assms n show ?thesis
    using filter_update_unsettled [OF n, of "fst (promises s ! n)"]
    by (auto simp: work_left_def Let_def pending_tracking)
next
  case (Race k)
  with assms obtain n where "map_of (activePromises s) k = Some n"
    by (auto split: if_splits option.splits)
  then have "k \<in> fst ` set (activePromises s)"
    by (metis map_of_eq_None_iff option.distinct(1))
  then have "length (AList.delete k (activePromises s)) < length (activePromises s)"
    by (rule length_delete_less)
  with Race assms show ?thesis
    by (auto simp: work_left_def split: if_splits option.splits)
qed

lemma progress:
  assumes "active_ok s" and "\<not> finished s"
  shows "\<exists>e s'. step svc e s = Some s'"
proof (cases "pending (processingQueue s)")
  case (Cons img rest)
  then have "\<exists>s'. step svc Dispatch s = Some s'" by simp
  then show ?thesis by blast
next
  case Nil
  with assms(2) obtain k n rest where a: "activePromises s = (k, n) # rest"
    by (cases "activePromises s") (auto simp: finished_def)
  with assms(1) have n: "n < length (promises s)" by (simp add: active_ok_def)
  show ?thesis
  proof (cases "snd (promises s ! n)")
    case True
    with Nil a n have "\<exists>s'. step svc (Race k) s = Some s'" by simp
    then show ?thesis by blast
  next
    case False
    with n have "\<exists>s'. step svc (Settle n (Inl NonError)) s = Some s'" by (simp add: Let_def)
    then show ?thesis by blast
  qed
qed

lemma run_exists:
  "active_ok s \<Longrightarrow> \<exists>evs s'. steps svc evs s = Some s' \<and> finished s'"
proof (induction "work_left s" arbitrary: s rule: less_induct)
  case less
  show ?case
  proof (cases "finished s")
    case True
    then have "steps svc [] s = Some s \<and> finished s" by simp
    then show ?thesis by blast
  next
    case False
    with less.prems obtain e s1 where e: "step svc e s = Some s1"
      using progress by blast
    then have "work_left s1 < work_left s" by (rule work_left_step)
    moreover from less.prems e have "active_ok s1" by (rule active_ok_step)
    ultimately obtain evs s' where "steps svc evs s1 = Some s'" "finished s'"
      using less.hyps by blast
    with False e have "steps svc (e # evs) s = Some s' \<and> finished s'" by simp
    then show ?thesis by blast
  qed
qed

lemma processConcurrentBatches_returns:
  "\<exists>evs s'. processConcurrentBatches svc evs (initial_scheduler images) = Some s'"
proof -
  have "active_ok (initial_scheduler images)"
    by (simp add: active_ok_def initial_scheduler_def)
  then obtain evs s' where "steps svc evs (initial_scheduler images) = Some s'" "finished s'"
    using run_exists by blast
  then have "processConcurrentBatches svc evs (initial_scheduler images) = Some s'"
    by (simp add: processConcurrentBatches_def)
  then show ?thesis by blast
qed

section \<open>A listing has no key twice\<close>

lemma push_listed_eq:
  "push_listed cfg images object =
     images @ (if listed_ok cfg object then [listed_image object] else [])"
  by (auto simp: push_listed_def listed_ok_def listed_image_def split: option.splits)

lemma foldl_push_listed:
  "foldl (push_listed cfg) images contents =
     images @ map listed_image (filter (listed_ok cfg) contents)"
  by (induction contents arbitrary: images) (auto simp: push_listed_eq)

lemma listImages_loop_eq:
  "listImages_loop cfg pages images =
     images @ map listed_image (filter (listed_ok cfg) (concat pages))"
  by (induction pages arbitrary: images) (auto simp: foldl_push_listed)

lemma concat_paginate: "concat (paginate n xs) = xs"
proof (induction n xs rule: paginate.induct)
  case (1 n xs)
  show ?case
  proof (cases "n = 0 \<or> length xs \<le> n")
    case True
    then show ?thesis by (subst paginate.simps) simp
  next
    case False
    with 1 show ?thesis by (subst paginate.simps) simp
  qed
qed

lemma listImages_Inr:
  "fst (listImages cfg env st b pre) = Inr images \<Longrightarrow>
     images = map listed_image (filter (listed_ok cfg) (list_contents st pre))"
  by (auto simp: listImages_def Let_def listImages_loop_eq concat_paginate
           split: option.splits exn.splits)

lemma key_listed_contents:
  "map (key \<circ> listed_image) (list_contents st pre) =
     map fst (filter (\<lambda>(k, ob). startsWith k pre) (AList.clearjunk (objects st)))"
  by (auto simp: list_contents_def listed_image_def)

lemma distinct_listing:
  assumes "fst (listImages cfg env st b pre) = Inr images"
  shows "distinct (map key images)"
proof -
  have "distinct (map fst (filter (\<lambda>(k, ob). startsWith k pre) (AList.clearjunk (objects st))))"
    by (intro distinct_map_filter distinct_clearjunk)
  then have "distinct (map (key \<circ> listed_image) (list_contents st pre))"
    by (simp only: key_listed_contents)
  then have "distinct (map (key \<circ> listed_image) (filter (listed_ok cfg) (list_contents st pre)))"
    by (rule distinct_map_filter)
  with listImages_Inr [OF assms] show ?thesis by simp
qed

section \<open>The pipeline and the skip check\<close>

lemma processImage_frame:
  "ledger (snd (processImage svc env ip w ob)) = ledger w
   \<and> disk (snd (processImage svc env ip w ob)) = disk w"
  by (simp add: processImage_def Let_def split: prod.splits bool.splits sum.splits)

lemma generateTargetKey_suffix: "\<exists>b. generateTargetKey k = b @ ''.webp''"
  by (simp add: generateTargetKey_def Let_def)

lemma isImageFile_target:
  "isImageFile cfg (generateTargetKey k) = (''webp'' \<in> supportedExtensions cfg)"
proof -
  obtain b where b: "generateTargetKey k = b @ CHR ''.'' # ''webp''"
    using generateTargetKey_suffix by auto
  have "last (split (CHR ''.'') (b @ CHR ''.'' # ''webp'')) = ''webp''"
    by (rule last_split_suffix) simp
  then show ?thesis
    by (simp add: isImageFile_def b toLowerCase_def toLowerCase_char_def)
qed

lemma skipIfExists_never:
  assumes "''webp'' \<notin> supportedExtensions (config svc)"
  shows "fst (skipIfExists svc env st (generateTargetKey k)) = False"
proof (cases "fst (listImages (config svc) env st (targetBucket (config svc)) (generateTargetKey k))")
  case (Inl e)
  then show ?thesis by (auto simp: skipIfExists_def split: prod.splits)
next
  case (Inr images)
  from listImages_Inr [OF Inr] have
    "\<forall>img \<in> set images. isImageFile (config svc) (key img)"
    by (auto simp: listed_ok_def listed_image_def split: option.splits)
  with assms have "\<forall>img \<in> set images. key img \<noteq> generateTargetKey k"
    using isImageFile_target by metis
  with Inr show ?thesis
    by (auto simp: skipIfExists_def list_ex_iff split: prod.splits)
qed

section \<open>The lines of the journal\<close>

lemma trim_core:
  assumes "list_all is_space a" "list_all is_space b" "m \<noteq> []"
    "\<not> is_space (hd m)" "\<not> is_space (last m)"
  shows "trim (a @ m @ b) = m"
proof -
  from assms(3,4) have 1: "dropWhile is_space (m @ b) = m @ b"
    by (cases m) auto
  from assms(1) have "dropWhile is_space (a @ m @ b) = dropWhile is_space (m @ b)"
    by (intro dropWhile_append2) (simp add: list_all_iff)
  with 1 have 2: "dropWhile is_space (a @ m @ b) = m @ b" by simp
  from assms(3,5) have 3: "dropWhile is_space (rev m) = rev m"
    by (cases m rule: rev_cases) auto
  from assms(2) have "dropWhile is_space (rev b @ rev m) = dropWhile is_space (rev m)"
    by (intro dropWhile_append2) (simp add: list_all_iff)
  with 3 have "dropWhile is_space (rev (m @ b)) = rev m" by simp
  with 2 show ?thesis by (simp add: trim_def)
qed

lemma trim_line_ok: "line_ok l \<Longrightarrow> trim l = l"
  using trim_core [of "[]" "[]" l] by (simp add: line_ok_def)

lemma is_space_newline: "is_space (CHR 0x0A)"
  by (simp add: is_space_def)

lemma trim_appended:
  assumes "journal_clean d" and "line_ok l"
  shows "\<exists>u. trim (d @ l @ [CHR 0x0A]) = u @ l \<and> (u = [] \<or> last u = CHR 0x0A)"
proof (cases "list_all is_space d")
  case True
  from assms(2) have "trim (d @ l @ [CHR 0x0A]) = l"
    by (intro trim_core True) (simp_all add: line_ok_def is_space_newline)
  then show ?thesis by simp
next
  case False
  with assms(1) have nl: "last d = CHR 0x0A" by (simp add: journal_clean_def)
  from False have d: "d \<noteq> []" by auto
  define a where "a = takeWhile is_space d"
  define v where "v = dropWhile is_space d"
  have dv: "d = a @ v" by (simp add: a_def v_def)
  from False have v: "v \<noteq> []"
    by (simp add: v_def list_all_iff)
  then have hv: "\<not> is_space (hd v)" unfolding v_def by (rule hd_dropWhile)
  from v dv nl have lv: "last v = CHR 0x0A" by simp
  let ?m = "v @ l"
  have "trim (a @ ?m @ [CHR 0x0A]) = ?m"
  proof (rule trim_core)
    show "list_all is_space a" by (simp add: a_def list_all_iff) (meson set_takeWhileD)
    show "list_all is_space [CHR 0x0A]" by (simp add: is_space_newline)
    show "?m \<noteq> []" using v by simp
    show "\<not> is_space (hd ?m)" using v hv by simp
    show "\<not> is_space (last ?m)" using assms(2) by (simp add: line_ok_def)
  qed
  with dv lv v show ?thesis by auto
qed

lemma journal_lines_appended:
  assumes "journal_clean d" and "line_ok l"
  shows "l \<in> set (journal_lines (d @ l @ [CHR 0x0A]))"
proof -
  from trim_appended [OF assms] obtain u where
    t: "trim (d @ l @ [CHR 0x0A]) = u @ l" and u: "u = [] \<or> last u = CHR 0x0A" by blast
  from assms(2) have nl: "CHR 0x0A \<notin> set l" and tl: "trim l \<noteq> []"
    using trim_line_ok [OF assms(2)] by (simp_all add: line_ok_def)
  have "l \<in> set (split (CHR 0x0A) (u @ l))"
  proof (cases "u = []")
    case True
    with nl show ?thesis by (simp add: split_no_separator)
  next
    case False
    with u obtain u' where "u = u' @ [CHR 0x0A]"
      by (metis append_butlast_last_id)
    with nl show ?thesis
      by (simp add: split_append_separator split_no_separator)
  qed
  with tl show ?thesis by (simp add: journal_lines_def t)
qed

section \<open>Loading and marking\<close>

lemma trim_eq_Nil: "trim s = [] \<longleftrightarrow> list_all is_space s"
proof
  assume "list_all is_space s"
  then have e: "dropWhile is_space s = []" by (induction s) auto
  show "trim s = []" unfolding trim_def e by simp
next
  assume t: "trim s = []"
  show "list_all is_space s"
  proof (rule ccontr)
    assume n: "\<not> list_all is_space s"
    define v where "v = dropWhile is_space s"
    from n have v: "v \<noteq> []" by (simp add: v_def list_all_iff)
    then have "\<not> is_space (hd v)" unfolding v_def by (rule hd_dropWhile)
    with v have "\<not> is_space (last (rev v))" "rev v \<noteq> []" by (simp_all add: last_rev)
    then have "dropWhile is_space (rev v) \<noteq> []"
      by (metis dropWhile_eq_Nil_conv last_in_set)
    with t show False by (simp add: trim_def v_def)
  qed
qed

lemma hd_trim:
  assumes "\<not> list_all is_space s"
  shows "trim s \<noteq> [] \<and> \<not> is_space (hd (trim s))"
proof -
  define v where "v = dropWhile is_space s"
  from assms have v: "v \<noteq> []" by (simp add: v_def list_all_iff)
  then have h: "\<not> is_space (hd v)" unfolding v_def by (rule hd_dropWhile)
  from v obtain x w where vw: "v = x # w" by (cases v) auto
  with h have x: "\<not> is_space x" by simp
  have "dropWhile is_space (rev w @ [x]) = dropWhile is_space (rev w) @ [x]"
    using x by (simp add: dropWhile_append3)
  then have "trim s = x # rev (dropWhile is_space (rev w))"
    by (simp add: trim_def v_def [symmetric] vw)
  with x show ?thesis by simp
qed

lemma hd_split: "s \<noteq> [] \<Longrightarrow> hd s \<noteq> c \<Longrightarrow> \<exists>w ws. split c s = (hd s # w) # ws"
  by (cases s) (auto split: list.splits simp: split_not_Nil)

lemma blank_journal:
  assumes "journal_lines d = []"
  shows "list_all is_space d"
proof (rule ccontr)
  assume n: "\<not> list_all is_space d"
  from hd_trim [OF n] have t: "trim d \<noteq> []" and h: "\<not> is_space (hd (trim d))" by simp_all
  from h have "hd (trim d) \<noteq> CHR 0x0A" using is_space_newline by metis
  with t obtain w ws where s: "split (CHR 0x0A) (trim d) = (hd (trim d) # w) # ws"
    using hd_split by blast
  have "\<not> list_all is_space (hd (trim d) # w)" using h by simp
  then have "trim (hd (trim d) # w) \<noteq> []" by (simp only: trim_eq_Nil not_False_eq_True)
  with s have "journal_lines d \<noteq> []" by (simp add: journal_lines_def)
  with assms show False by simp
qed

lemma consolidateFiles_journal:
  "appendLog (snd (consolidateFiles js fe fs)) = appendLog fs
   \<or> appendLog (snd (consolidateFiles js fe fs)) = Some []"
  by (simp add: consolidateFiles_def Let_def split: option.splits)

lemma consolidateFiles_no_faults:
  assumes "\<not> read_log_throws fe" "\<not> write_main_throws fe" "\<not> write_log_throws fe"
    and "appendLog fs = Some d"
  shows "appendLog (snd (consolidateFiles js fe fs)) = Some []"
  using assms by (simp add: consolidateFiles_def Let_def)

lemma loadFromMainFile_disk: "snd (loadFromMainFile js fe tf) = snd tf"
  by (simp add: loadFromMainFile_def Let_def split: option.splits)

lemma loadFromMainFile_loaded: "isLoaded (fst (loadFromMainFile js fe tf)) = isLoaded (fst tf)"
  by (simp add: loadFromMainFile_def Let_def split: option.splits)

lemma loadFromAppendLog_journal:
  "appendLog (snd (loadFromAppendLog js fe tf)) = appendLog (snd tf)
   \<or> appendLog (snd (loadFromAppendLog js fe tf)) = Some []"
  using consolidateFiles_journal [of js fe "snd tf"]
  by (auto simp: loadFromAppendLog_def Let_def split: option.splits)

lemma loadConvertedKeys_journal:
  "appendLog (snd (loadConvertedKeys js fe tf)) = appendLog (snd tf)
   \<or> appendLog (snd (loadConvertedKeys js fe tf)) = Some []"
  using loadFromAppendLog_journal [of js fe "loadFromMainFile js fe tf"]
  by (auto simp: loadConvertedKeys_def Let_def loadFromMainFile_disk)

lemma journal_clean_Nil: "journal_clean []"
  by (simp add: journal_clean_def)

lemma loadFromAppendLog_clean:
  assumes "\<not> read_log_throws fe" "\<not> write_main_throws fe" "\<not> write_log_throws fe"
  shows "journal_clean (journal_text (snd (loadFromAppendLog js fe tf)))"
proof (cases "appendLog (snd tf)")
  case None
  with assms show ?thesis
    by (simp add: loadFromAppendLog_def Let_def journal_text_def journal_clean_Nil)
next
  case (Some d)
  show ?thesis
  proof (cases "journal_lines d = []")
    case True
    then have "journal_clean d" by (simp add: journal_clean_def blank_journal)
    with Some True assms show ?thesis
      by (simp add: loadFromAppendLog_def Let_def journal_text_def)
  next
    case False
    with Some assms show ?thesis
      using consolidateFiles_no_faults [OF assms Some, of js]
      by (simp add: loadFromAppendLog_def Let_def journal_text_def journal_clean_Nil)
  qed
qed

lemma ready_after_load:
  assumes "journal_ready fe t fs"
  shows "journal_clean (journal_text (snd (loadConvertedKeys js fe (t, fs))))"
proof (cases "journal_clean (journal_text fs)")
  case True
  with loadConvertedKeys_journal [of js fe "(t, fs)"] show ?thesis
    by (auto simp: journal_text_def journal_clean_Nil)
next
  case False
  with assms have f: "\<not> isLoaded t" "\<not> mkdir_throws fe" "\<not> read_log_throws fe"
    "\<not> write_main_throws fe" "\<not> write_log_throws fe"
    by (simp_all add: journal_ready_def)
  from f(3-5) have "journal_clean (journal_text (snd (loadFromAppendLog js fe
      (loadFromMainFile js fe (t, fs)))))"
    by (rule loadFromAppendLog_clean)
  with f(1,2) show ?thesis by (simp add: loadConvertedKeys_def Let_def)
qed

lemma processWriteQueue_rest_journal:
  "appendLog (snd (processWriteQueue_rest js fe rs tf)) = appendLog (snd tf)"
  by (simp add: processWriteQueue_rest_def Let_def)

lemma processWriteQueue_journal:
  "appendLog (snd (processWriteQueue js fe tf)) = appendLog (snd tf)"
  by (simp add: processWriteQueue_def processWriteQueue_start_def processWriteQueue_rest_journal)

lemma markAsConverted_journal:
  assumes "markAsConverted js fe R (t, fs) = (Inr (), t1, fs1, b)"
  shows "appendLog fs1 =
           Some (journal_text (snd (loadConvertedKeys js fe (t, fs)))
                 @ stringify_record js R @ [CHR 0x0A])"
proof -
  let ?tf = "loadConvertedKeys js fe (t, fs)"
  let ?fs2 = "(snd ?tf)\<lparr>appendLog :=
                 Some (journal_text (snd ?tf) @ stringify_record js R @ [CHR 0x0A])\<rparr>"
  from assms have na: "\<not> append_log_throws fe"
    by (auto simp: markAsConverted_def appendToLog_def Let_def split: if_splits)
  then have a: "appendToLog js fe R (snd ?tf) = Inr ?fs2"
    by (simp add: appendToLog_def journal_text_def)
  from assms a have "fs1 = ?fs2"
    by (auto simp: markAsConverted_def Let_def split: if_splits)
  then show ?thesis by simp
qed

lemma fold_keys_mono:
  "K \<subseteq> foldl (\<lambda>keys line. case parse_record js line of
                              None \<Rightarrow> keys
                            | Some record \<Rightarrow> insert (sourceKey_rec record) keys) K ls"
proof (induction ls arbitrary: K)
  case Nil
  show ?case by simp
next
  case (Cons x ls)
  show ?case
  proof (cases "parse_record js x")
    case None
    with Cons [of K] show ?thesis by simp
  next
    case (Some r)
    with Cons [of "insert (sourceKey_rec r) K"] show ?thesis by auto
  qed
qed

lemma fold_keys_member:
  "l \<in> set ls \<Longrightarrow> parse_record js l = Some r \<Longrightarrow>
     sourceKey_rec r \<in> foldl (\<lambda>keys line. case parse_record js line of
                              None \<Rightarrow> keys
                            | Some record \<Rightarrow> insert (sourceKey_rec record) keys) K ls"
proof (induction ls arbitrary: K)
  case Nil then show ?case by simp
next
  case (Cons x ls)
  show ?case
  proof (cases "l = x")
    case True
    with Cons.prems have "sourceKey_rec r \<in> insert (sourceKey_rec r) K" by simp
    with True Cons.prems show ?thesis
      using fold_keys_mono [of "insert (sourceKey_rec r) K" js ls] by auto
  next
    case False
    with Cons show ?thesis by simp
  qed
qed

lemma loadFromAppendLog_keys:
  assumes "\<not> read_log_throws fe" "appendLog (snd tf) = Some d"
    "l \<in> set (journal_lines d)" "parse_record js l = Some r"
  shows "sourceKey_rec r \<in> convertedKeys (fst (loadFromAppendLog js fe tf))"
  using assms fold_keys_member [OF assms(3,4)]
  by (auto simp: loadFromAppendLog_def Let_def)

lemma reload_has_key:
  assumes "\<not> mkdir_throws fe" "\<not> read_log_throws fe" "appendLog fs = Some d"
    "l \<in> set (journal_lines d)" "parse_record js l = Some r"
  shows "fst (isConverted js fe (sourceKey_rec r) (new_tracker, fs))"
proof -
  have "appendLog (snd (loadFromMainFile js fe (new_tracker, fs))) = Some d"
    using assms(3) by (simp add: loadFromMainFile_disk)
  from loadFromAppendLog_keys [OF assms(2) this assms(4,5)]
  show ?thesis using assms(1)
    by (simp add: isConverted_def loadConvertedKeys_def Let_def new_tracker_def)
qed

text \<open>
  What holds of a record for which \<open>markAsConverted\<close> returns when the journal was ready
  for the append: a new tracker that loads from the files alone, and can create the
  directory and read the journal, knows the record's source key.
\<close>

lemma marked_key_survives_reload:
  assumes "markAsConverted js fe R (t, fs) = (Inr (), t1, fs1, b)"
    and "journal_ready fe t fs"
    and "line_ok (stringify_record js R)"
    and "parse_record js (stringify_record js R) = Some R'"
    and "sourceKey_rec R' = sourceKey_rec R"
    and "\<not> mkdir_throws fe2" and "\<not> read_log_throws fe2"
  shows "fst (isConverted js fe2 (sourceKey_rec R) (new_tracker, fs1))"
proof -
  let ?d = "journal_text (snd (loadConvertedKeys js fe (t, fs)))"
  from assms(1) have j: "appendLog fs1 = Some (?d @ stringify_record js R @ [CHR 0x0A])"
    by (rule markAsConverted_journal)
  from assms(2) have "journal_clean ?d" by (rule ready_after_load)
  then have "stringify_record js R \<in> set (journal_lines (?d @ stringify_record js R @ [CHR 0x0A]))"
    using assms(3) by (rule journal_lines_appended)
  from reload_has_key [OF assms(6,7) j this assms(4)] assms(5)
  show ?thesis by simp
qed

text \<open>The hundredth record starts the write of the queue and does not wait for it: the
  call returns with \<open>isWriting\<close> set, the queue empty and the tracking file as it was.\<close>

lemma markAsConverted_starts_write:
  assumes "isLoaded t" "\<not> isWriting t" "length (writeQueue t) = 99" "\<not> append_log_throws fe"
  shows "markAsConverted js fe R (t, fs) =
           (Inr (),
            t\<lparr>convertedKeys := insert (sourceKey_rec R) (convertedKeys t),
              writeQueue := [], isWriting := True\<rparr>,
            fs\<lparr>appendLog := Some (journal_text fs @ stringify_record js R @ [CHR 0x0A])\<rparr>,
            Some (writeQueue t @ [R]))"
  using assms
  by (simp add: markAsConverted_def loadConvertedKeys_def appendToLog_def
      processWriteQueue_start_def journal_text_def Let_def)

text \<open>After a call that returns, the journal ends in a line feed: the next call finds it
  ready.\<close>

lemma markAsConverted_keeps_clean:
  assumes "markAsConverted js fe R (t, fs) = (Inr (), t1, fs1, b)"
  shows "journal_clean (journal_text fs1)"
  using markAsConverted_journal [OF assms] by (simp add: journal_clean_def journal_text_def)

section \<open>Consolidation\<close>

lemma find_snoc:
  "List.find P (xs @ [x]) =
     (case List.find P xs of None \<Rightarrow> (if P x then Some x else None) | Some y \<Rightarrow> Some y)"
  by (induction xs) auto

lemma consolidate_fold:
  "snd (foldl consolidate_push ([], {}) xs) = sourceKey_rec ` set xs
   \<and> sourceKey_rec ` set (fst (foldl consolidate_push ([], {}) xs)) = sourceKey_rec ` set xs
   \<and> distinct (map sourceKey_rec (fst (foldl consolidate_push ([], {}) xs)))
   \<and> (\<forall>r \<in> set (fst (foldl consolidate_push ([], {}) xs)).
         List.find (\<lambda>x. sourceKey_rec x = sourceKey_rec r) xs = Some r)"
proof (induction xs rule: rev_induct)
  case Nil
  show ?case by simp
next
  case (snoc x xs)
  let ?acc = "foldl consolidate_push ([], {}) xs"
  from snoc have seen: "snd ?acc = sourceKey_rec ` set xs"
    and keys: "sourceKey_rec ` set (fst ?acc) = sourceKey_rec ` set xs"
    and dist: "distinct (map sourceKey_rec (fst ?acc))"
    and first: "\<And>r. r \<in> set (fst ?acc) \<Longrightarrow>
                  List.find (\<lambda>x. sourceKey_rec x = sourceKey_rec r) xs = Some r"
    by auto
  show ?case
  proof (cases "sourceKey_rec x \<in> sourceKey_rec ` set xs")
    case True
    with seen have e: "foldl consolidate_push ([], {}) (xs @ [x]) = ?acc"
      by (simp add: consolidate_push_def)
    from True seen keys dist first show ?thesis
      unfolding e by (auto simp: find_snoc)
  next
    case False
    with seen have e: "foldl consolidate_push ([], {}) (xs @ [x])
        = (fst ?acc @ [x], insert (sourceKey_rec x) (snd ?acc))"
      by (simp add: consolidate_push_def)
    have new: "List.find (\<lambda>y. sourceKey_rec y = sourceKey_rec x) xs = None"
      unfolding find_None_iff using False by (metis imageI)
    from False keys have notin: "sourceKey_rec x \<notin> sourceKey_rec ` set (fst ?acc)" by simp
    show ?thesis
      unfolding e using False seen keys dist first new notin
      by (auto simp: find_snoc)
  qed
qed

lemma fold_parsed_lines:
  "foldl (\<lambda>acc line. case parse_record js line of
                       None \<Rightarrow> acc
                     | Some record \<Rightarrow> consolidate_push acc record) acc ls
   = foldl consolidate_push acc (List.map_filter (parse_record js) ls)"
  by (induction ls arbitrary: acc) (auto split: option.splits)

lemma those_before_throw: "those elements = Some ms \<Longrightarrow> before_throw elements = ms"
proof (induction elements arbitrary: ms)
  case Nil
  then show ?case by simp
next
  case (Cons e elements)
  then show ?case by (cases e) (auto split: option.splits)
qed

lemma consolidateFiles_True:
  assumes "consolidateFiles js fe fs = (True, fs')"
    and "\<not> read_main_throws fe"
    and "stored_records js fs = Some ms"
  shows "fs' = fs\<lparr>trackingFile :=
                   Some (stringify_records js
                     (map Some (fst (foldl consolidate_push ([], {}) (ms @ journal_records js fs))))),
                 appendLog := Some []\<rparr>"
proof -
  from assms(1) obtain d where d: "appendLog fs = Some d"
    by (cases "appendLog fs") (auto simp: consolidateFiles_def Let_def split: if_splits)
  have main: "(case trackingFile fs of
                 None \<Rightarrow> ([], {})
               | Some mainData \<Rightarrow>
                   (case parse_records js mainData of
                      None \<Rightarrow> ([], {})
                    | Some mainRecords \<Rightarrow>
                        foldl consolidate_push ([], {}) (before_throw mainRecords)))
              = foldl consolidate_push ([], {}) ms"
    using assms(3) by (auto simp: stored_records_def those_before_throw split: option.splits)
  from assms(1,2) show ?thesis
    unfolding consolidateFiles_def Let_def main
    by (auto simp: d fold_parsed_lines journal_records_def journal_text_def
             split: if_splits)
qed

text \<open>
  What holds of a consolidation that runs to its end when the tracking file parses into
  records (or is absent) and its read does not throw: the tracking file is rewritten with
  the old records followed by those of the journal, the first record of each source key,
  and the journal is emptied.
\<close>

lemma consolidation_keeps_all_keys:
  assumes "consolidateFiles js fe fs = (True, fs')"
    and "\<not> read_main_throws fe"
    and "stored_records js fs = Some ms"
  shows "\<exists>allRecords.
           trackingFile fs' = Some (stringify_records js (map Some allRecords))
           \<and> appendLog fs' = Some []
           \<and> distinct (map sourceKey_rec allRecords)
           \<and> set (map sourceKey_rec allRecords) =
               set (map sourceKey_rec ms) \<union> set (map sourceKey_rec (journal_records js fs))
           \<and> (\<forall>r \<in> set allRecords.
                 List.find (\<lambda>x. sourceKey_rec x = sourceKey_rec r) (ms @ journal_records js fs)
                   = Some r)"
proof -
  let ?all = "fst (foldl consolidate_push ([], {}) (ms @ journal_records js fs))"
  from consolidateFiles_True [OF assms] have
    "trackingFile fs' = Some (stringify_records js (map Some ?all))" "appendLog fs' = Some []"
    by simp_all
  moreover from consolidate_fold [of "ms @ journal_records js fs"] have
    "distinct (map sourceKey_rec ?all)"
    "set (map sourceKey_rec ?all) =
       set (map sourceKey_rec ms) \<union> set (map sourceKey_rec (journal_records js fs))"
    "\<forall>r \<in> set ?all.
       List.find (\<lambda>x. sourceKey_rec x = sourceKey_rec r) (ms @ journal_records js fs) = Some r"
    by (simp_all add: image_Un)
  ultimately show ?thesis by blast
qed

section \<open>Concrete runs\<close>

lemmas demo_defs = demo_config_def demo_service_def demo_env_def demo_processor_def
  demo_object_def demo_store_def demo_world_def demo_result_def new_tracker_def

lemmas s3_defs = listImages_def downloadImage_def uploadImage_def
  list_contents_def push_listed_def isImageFile_def supportedExtensions_def startsWith_def
  toLowerCase_def toLowerCase_char_def

lemma demo_listing:
  "fst (listImages (config demo_service) demo_env demo_store (targetBucket (config demo_service))
          (prefix (config demo_service))) = Inr [demo_object]"
  by (simp add: demo_defs s3_defs paginate.simps)

lemma demo_run:
  "processAllImages demo_service demo_env demo_store demo_events =
     Some \<lparr>totalImages = 0, successful = 1, failed = 0, skipped = 0, totalSizeBefore = 1000,
           totalSizeAfter = 500, averageCompressionRatio = 1 / 2, processingDuration = 5,
           errors = []\<rparr>"
  unfolding processAllImages_def demo_listing
  by (simp add: demo_events_def processConcurrentBatches_def initial_scheduler_def
      initial_report_def finished_def processImageWithTracking_def set_add_def set_delete_def
      demo_defs Let_def)

lemma failing_listing:
  "fst (listImages (config demo_service) failing_env demo_store
          (targetBucket (config demo_service)) (prefix (config demo_service))) =
     Inl (Error ''Failed to list images from bucket my-webp-bucket: Access Denied, duration: 5'')"
  by (simp add: failing_env_def demo_defs listImages_def toString.simps)

lemmas pipe_defs = processImage_def skipIfExists_def caught_def generateTargetKey_def
  lastIndexOf_def substring_def

lemma first_run_eq:
  "first_run =
     (demo_result,
      demo_world\<lparr>s3 := \<lparr>objects =
          [(''photo.jpg'', \<lparr>body = replicate 1000 0, modified = 1, tag = ''abc''\<rparr>),
           (''photo.webp'', \<lparr>body = replicate 500 0, modified = 2, tag = ''etag''\<rparr>)],
        sent = [ListObjectsV2 ''my-webp-bucket'' ''photo.webp'',
                GetObject ''my-webp-bucket'' ''photo.jpg'',
                PutObject ''my-webp-bucket'' ''photo.webp'' (replicate 500 0)]\<rparr>\<rparr>)"
  by (simp add: first_run_def demo_defs pipe_defs s3_defs paginate.simps Let_def)

lemma second_run_eq:
  "second_run =
     (demo_result,
      demo_world\<lparr>s3 := \<lparr>objects =
          [(''photo.jpg'', \<lparr>body = replicate 1000 0, modified = 1, tag = ''abc''\<rparr>),
           (''photo.webp'', \<lparr>body = replicate 500 0, modified = 2, tag = ''etag''\<rparr>)],
        sent = [ListObjectsV2 ''my-webp-bucket'' ''photo.webp'',
                GetObject ''my-webp-bucket'' ''photo.jpg'',
                PutObject ''my-webp-bucket'' ''photo.webp'' (replicate 500 0),
                ListObjectsV2 ''my-webp-bucket'' ''photo.webp'',
                GetObject ''my-webp-bucket'' ''photo.jpg'',
                PutObject ''my-webp-bucket'' ''photo.webp'' (replicate 500 0)]\<rparr>\<rparr>)"
  unfolding second_run_def first_run_eq
  by (simp add: demo_defs pipe_defs s3_defs paginate.simps Let_def)

lemma bigger_run:
  "skipIfExists demo_service demo_env (s3 demo_world) (generateTargetKey (key demo_object)) =
     (False, demo_store\<lparr>sent := [ListObjectsV2 ''my-webp-bucket'' ''photo.webp'']\<rparr>)"
  "downloadImage demo_env (demo_store\<lparr>sent := [ListObjectsV2 ''my-webp-bucket'' ''photo.webp'']\<rparr>)
       (targetBucket (config demo_service)) (key demo_object) =
     (Inr (replicate 1000 0),
      demo_store\<lparr>sent := [ListObjectsV2 ''my-webp-bucket'' ''photo.webp'',
                           GetObject ''my-webp-bucket'' ''photo.jpg'']\<rparr>)"
  by (simp_all add: demo_defs pipe_defs s3_defs paginate.simps Let_def)

lemmas codec_defs = demo_json_def demo_parse_def key_record_def

lemma two_files_lines:
  "journal_lines ''{a.jpg}\<newline>{b.png}\<newline>'' = [''{a.jpg}'', ''{b.png}'']"
  by (simp add: journal_lines_def trim_def is_space_def)

lemma two_files_stored:
  "stored_records demo_json two_files = Some [key_record ''a.jpg'']"
  by (simp add: two_files_def stored_records_def demo_json_def demo_parse_def)

lemma two_files_journal:
  "journal_records demo_json two_files = [key_record ''a.jpg'', key_record ''b.png'']"
  by (simp add: two_files_def journal_records_def journal_text_def two_files_lines
      demo_json_def demo_parse_def)

lemma two_files_consolidated:
  "consolidateFiles demo_json no_faults two_files =
     (True, \<lparr>trackingFile = Some ''{a.jpg}\<newline>{b.png}\<newline>'', appendLog = Some []\<rparr>)"
  unfolding consolidateFiles_def two_files_def
  by (simp add: two_files_lines no_faults_def codec_defs consolidate_push_def Let_def)

text \<open>A consolidation without failures: the record that is in both files is kept once.\<close>

lemma two_files_example:
  "\<exists>allRecords.
     trackingFile (snd (consolidateFiles demo_json no_faults two_files))
       = Some (stringify_records demo_json (map Some allRecords))
     \<and> distinct (map sourceKey_rec allRecords)
     \<and> set (map sourceKey_rec allRecords) = {''a.jpg'', ''b.png''}"
proof -
  have nf: "\<not> read_main_throws no_faults" by (simp add: no_faults_def)
  from consolidation_keeps_all_keys [OF two_files_consolidated nf two_files_stored]
  obtain allRecords where
    t: "trackingFile \<lparr>trackingFile = Some ''{a.jpg}\<newline>{b.png}\<newline>'', appendLog = Some []\<rparr>
          = Some (stringify_records demo_json (map Some allRecords))"
    and d: "distinct (map sourceKey_rec allRecords)"
    and k: "set (map sourceKey_rec allRecords) =
              set (map sourceKey_rec [key_record ''a.jpg''])
              \<union> set (map sourceKey_rec (journal_records demo_json two_files))"
    by blast
  have "set (map sourceKey_rec [key_record ''a.jpg''])
          \<union> set (map sourceKey_rec (journal_records demo_json two_files)) = {''a.jpg'', ''b.png''}"
    unfolding two_files_journal by (simp add: key_record_def insert_commute)
  with k have k': "set (map sourceKey_rec allRecords) = {''a.jpg'', ''b.png''}" by simp
  from t d k' show ?thesis unfolding two_files_consolidated by auto
qed

lemma one_each_lines: "journal_lines ''{b.png}\<newline>'' = [''{b.png}'']"
  by (simp add: journal_lines_def trim_def is_space_def)

lemma one_each_stored:
  "stored_records demo_json one_each = Some [key_record ''a.jpg'']"
  by (simp add: one_each_def stored_records_def demo_json_def demo_parse_def)

lemma one_each_journal:
  "journal_records demo_json one_each = [key_record ''b.png'']"
  by (simp add: one_each_def journal_records_def journal_text_def one_each_lines
      demo_json_def demo_parse_def)

lemma one_each_consolidated:
  "consolidateFiles demo_json read_fails one_each =
     (True, \<lparr>trackingFile = Some ''{b.png}\<newline>'', appendLog = Some []\<rparr>)"
  unfolding consolidateFiles_def one_each_def
  by (simp add: one_each_lines read_fails_def no_faults_def codec_defs consolidate_push_def Let_def)

lemma one_each_after:
  "stored_records demo_json \<lparr>trackingFile = Some ''{b.png}\<newline>'', appendLog = Some []\<rparr>
     = Some [key_record ''b.png'']"
  by (simp add: stored_records_def demo_json_def demo_parse_def)

text \<open>A tracking file whose second element is \<open>null\<close>: the key read before it is kept.\<close>

lemma partial_tracking_file:
  "convertedKeys (fst (loadFromMainFile demo_json no_faults
      (new_tracker,
       \<lparr>trackingFile = Some ''{a.jpg}\<newline>null\<newline>{c.jpg}\<newline>'', appendLog = None\<rparr>)))
   = {''a.jpg''}"
  by (simp add: loadFromMainFile_def no_faults_def new_tracker_def codec_defs)

lemma crashed_lines: "journal_lines ''{old.png'' = [''{old.png'']"
  by (simp add: journal_lines_def trim_def is_space_def)

lemma crashed_load:
  "loadConvertedKeys demo_json no_faults (new_tracker, crashed_disk) =
     (\<lparr>convertedKeys = {}, isLoaded = True, writeQueue = [], isWriting = False\<rparr>,
      \<lparr>trackingFile = Some [], appendLog = Some []\<rparr>)"
  unfolding loadConvertedKeys_def loadFromAppendLog_def loadFromMainFile_def consolidateFiles_def
    crashed_disk_def new_tracker_def
  by (simp add: crashed_lines no_faults_def codec_defs Let_def)

lemma crashed_mark:
  "markAsConverted demo_json no_faults demo_record (new_tracker, crashed_disk) =
     (Inr (),
      \<lparr>convertedKeys = {''photo.jpg''}, isLoaded = True, writeQueue = [demo_record],
       isWriting = False\<rparr>,
      \<lparr>trackingFile = Some [], appendLog = Some ''{photo.jpg}\<newline>''\<rparr>, None)"
  unfolding markAsConverted_def crashed_load
  by (simp add: appendToLog_def no_faults_def demo_json_def demo_record_def Let_def)

lemma demo_line:
  "line_ok (stringify_record demo_json demo_record)"
  "parse_record demo_json (stringify_record demo_json demo_record) = Some (key_record ''photo.jpg'')"
  "sourceKey_rec (key_record ''photo.jpg'') = sourceKey_rec demo_record"
  by (simp_all add: line_ok_def is_space_def codec_defs demo_record_def)

lemma crashed_ready: "journal_ready no_faults new_tracker crashed_disk"
  by (simp add: journal_ready_def no_faults_def new_tracker_def)

text \<open>A load without failures empties the journal that a crash left with a partial line,
  and the record marked after it is known to a new tracker.\<close>

lemma crashed_disk_example:
  "fst (isConverted demo_json no_faults (sourceKey_rec demo_record)
          (new_tracker, \<lparr>trackingFile = Some [], appendLog = Some ''{photo.jpg}\<newline>''\<rparr>))"
proof -
  have nf: "\<not> mkdir_throws no_faults" "\<not> read_log_throws no_faults"
    by (simp_all add: no_faults_def)
  from marked_key_survives_reload [OF crashed_mark crashed_ready demo_line nf]
  show ?thesis .
qed

text \<open>The same files when the write of the tracking file fails: the load cannot
  consolidate, the journal keeps its partial line, and the new line is glued to it.\<close>

lemma crashed_load_write_fails:
  "loadConvertedKeys demo_json write_fails (new_tracker, crashed_disk) =
     (\<lparr>convertedKeys = {}, isLoaded = True, writeQueue = [], isWriting = False\<rparr>, crashed_disk)"
  unfolding loadConvertedKeys_def loadFromAppendLog_def loadFromMainFile_def consolidateFiles_def
    crashed_disk_def new_tracker_def
  by (simp add: crashed_lines write_fails_def no_faults_def codec_defs Let_def)

lemma crashed_mark_write_fails:
  "markAsConverted demo_json write_fails demo_record (new_tracker, crashed_disk) =
     (Inr (),
      \<lparr>convertedKeys = {''photo.jpg''}, isLoaded = True, writeQueue = [demo_record],
       isWriting = False\<rparr>,
      \<lparr>trackingFile = None, appendLog = Some ''{old.png{photo.jpg}\<newline>''\<rparr>, None)"
  unfolding markAsConverted_def crashed_load_write_fails
  by (simp add: appendToLog_def write_fails_def no_faults_def demo_json_def demo_record_def
      crashed_disk_def Let_def)

lemma glued_lines:
  "journal_lines ''{old.png{photo.jpg}\<newline>'' = [''{old.png{photo.jpg}'']"
  by (simp add: journal_lines_def trim_def is_space_def)

lemma glued_reload:
  "isConverted demo_json no_faults ''photo.jpg''
     (new_tracker, \<lparr>trackingFile = None, appendLog = Some ''{old.png{photo.jpg}\<newline>''\<rparr>) =
   (False,
    \<lparr>convertedKeys = {}, isLoaded = True, writeQueue = [], isWriting = False\<rparr>,
    \<lparr>trackingFile = Some [], appendLog = Some []\<rparr>)"
  unfolding isConverted_def loadConvertedKeys_def loadFromAppendLog_def loadFromMainFile_def
    consolidateFiles_def new_tracker_def
  by (simp add: glued_lines no_faults_def codec_defs Let_def)

lemma crashed_not_ready: "\<not> journal_ready write_fails new_tracker crashed_disk"
  by (simp add: journal_ready_def journal_clean_def journal_text_def crashed_disk_def
      write_fails_def no_faults_def is_space_def)

text \<open>
  The invariant needs the keys to differ, as they do in a listing.  For a list that
  repeats a key the second promise replaces the first in \<open>activePromises\<close>, and the loop
  can end while the first is still running: its result is then not in the report that is
  returned.
\<close>

lemma scheduler_counts:
  assumes "distinct (map key images)"
    and "processConcurrentBatches svc evs (initial_scheduler images) = Some s"
  shows "counted (report s) = length images"
proof -
  from assms(2) have st: "steps svc evs (initial_scheduler images) = Some s" and fin: "finished s"
    by (auto simp: processConcurrentBatches_def split: option.splits if_splits)
  from assms(1) have "sched_inv (length images) (initial_scheduler images)"
    by (rule sched_inv_initial)
  then have "sched_inv (length images) s" using st by (rule sched_inv_steps)
  then show ?thesis using fin by (rule sched_inv_finished)
qed

lemma repeated_key_run:
  "map_option (\<lambda>s. counted (report s))
     (processConcurrentBatches demo_service
        [Dispatch, Dispatch, Settle 1 (Inr demo_result), Race ''photo.jpg'']
        (initial_scheduler [demo_object, demo_object])) = Some 1"
  by (simp add: processConcurrentBatches_def initial_scheduler_def initial_report_def
      finished_def processImageWithTracking_def set_add_def set_delete_def counted_def
      demo_defs Let_def)

section \<open>Claims\<close>

text \<open>
  C1 (the code does otherwise).  The claim: at every point of a run the number of
  pipelines in flight is at most the concurrency limit.  The inner loop dispatches while
  images are pending and never reads the limit: with a limit of 3 and ten images, ten
  dispatches in a row are possible, after which \<open>processing\<close> and \<open>activePromises\<close> hold
  ten keys; the run can then go on to its end.
\<close>

theorem C1_ten_in_flight_with_limit_three:
  "concurrency (config demo_service) = 3
   \<and> map_option (\<lambda>s. (length (processing (processingQueue s)), length (activePromises s)))
        (steps demo_service ten_dispatches (initial_scheduler ten_images)) = Some (10, 10)
   \<and> processConcurrentBatches demo_service ten_events (initial_scheduler ten_images) \<noteq> None"
proof -
  have "concurrency (config demo_service) = 3"
    by (simp add: demo_service_def demo_config_def)
  moreover have "map_option (\<lambda>s. (length (processing (processingQueue s)), length (activePromises s)))
        (steps demo_service ten_dispatches (initial_scheduler ten_images)) = Some (10, 10)"
    by code_simp
  moreover have "processConcurrentBatches demo_service ten_events (initial_scheduler ten_images) \<noteq> None"
    by code_simp
  ultimately show ?thesis by simp
qed

text \<open>
  C2 (the code does otherwise).  The claim: after a first run that succeeds, a second run
  on the same object is skipped, with no download and no upload.  The skip check lists the
  store through \<open>listImages\<close>, which keeps only keys with a supported source extension,
  so with the default formats the target \<open>.webp\<close> key is never listed: the second run is a
  success again, and sends a download and an upload of its own.
\<close>

theorem C2_second_run_not_skipped:
  "status (fst first_run) = Success
   \<and> map_of (objects (s3 (snd first_run))) (targetKey (fst first_run)) \<noteq> None
   \<and> status (fst second_run) = Success
   \<and> convertedSize (fst second_run) = 500
   \<and> sent (s3 (snd second_run)) =
       sent (s3 (snd first_run))
         @ [ListObjectsV2 ''my-webp-bucket'' ''photo.webp'',
            GetObject ''my-webp-bucket'' ''photo.jpg'',
            PutObject ''my-webp-bucket'' ''photo.webp'' (replicate 500 0)]"
  by (simp add: first_run_eq second_run_eq demo_result_def demo_world_def)

text \<open>
  C3.  When the listing succeeds with \<open>N\<close> images, \<open>processAllImages\<close> returns a report, and
  in every report it returns \<open>successful + failed + skipped = N\<close>: each promise adds one
  to exactly one of the three counters, and the loop ends only when every promise has
  settled.
\<close>

theorem C3_counts_sum_to_listing:
  assumes "fst (listImages (config svc) env st (targetBucket (config svc)) (prefix (config svc)))
             = Inr images"
  shows "(\<exists>evs rep. processAllImages svc env st evs = Some rep)
         \<and> (\<forall>evs rep. processAllImages svc env st evs = Some rep \<longrightarrow>
               successful rep + failed rep + skipped rep = length images)"
proof
  show "\<exists>evs rep. processAllImages svc env st evs = Some rep"
  proof (cases "length images = 0")
    case True
    with assms show ?thesis by (simp add: processAllImages_def)
  next
    case False
    obtain evs s' where "processConcurrentBatches svc evs (initial_scheduler images) = Some s'"
      using processConcurrentBatches_returns by blast
    with assms False have "\<exists>rep. processAllImages svc env st evs = Some rep"
      by (simp add: processAllImages_def Let_def)
    then show ?thesis by blast
  qed
next
  show "\<forall>evs rep. processAllImages svc env st evs = Some rep \<longrightarrow>
          successful rep + failed rep + skipped rep = length images"
  proof (intro allI impI)
    fix evs rep
    assume run: "processAllImages svc env st evs = Some rep"
    show "successful rep + failed rep + skipped rep = length images"
    proof (cases "length images = 0")
      case True
      with assms run show ?thesis
        by (auto simp: processAllImages_def initial_report_def)
    next
      case False
      with assms run obtain s where
        b: "processConcurrentBatches svc evs (initial_scheduler images) = Some s"
        and rep: "counted rep = counted (report s)"
        by (auto simp: processAllImages_def Let_def counted_def split: option.splits if_splits)
      have "counted (report s) = length images"
        using distinct_listing [OF assms] b by (rule scheduler_counts)
      with rep show ?thesis by (simp add: counted_def)
    qed
  qed
qed

theorem C3_counts_sum_to_listing_witness:
  "fst (listImages (config demo_service) demo_env demo_store (targetBucket (config demo_service))
          (prefix (config demo_service))) = Inr [demo_object]
   \<and> (\<exists>rep. processAllImages demo_service demo_env demo_store demo_events = Some rep
          \<and> successful rep + failed rep + skipped rep = length [demo_object])"
  using C3_counts_sum_to_listing [OF demo_listing] demo_listing demo_run by simp

text \<open>
  C4 (the code does otherwise).  The claim: a run that succeeds outside dry-run mode hands
  a record for the source key to the tracker, and a dry run never changes the tracker.
  \<open>BatchConversionService\<close> holds no tracker: no run of the pipeline, in either mode,
  changes the tracker or its files (so the second half holds), and after the successful run
  of the example the source key is not among the converted keys, no record is queued and no
  journal exists.
\<close>

theorem C4_success_without_ledger:
  "(\<forall>svc env ip w ob. ledger (snd (processImage svc env ip w ob)) = ledger w
       \<and> disk (snd (processImage svc env ip w ob)) = disk w)
   \<and> \<not> dryRun demo_service
   \<and> status (fst first_run) = Success
   \<and> sourceKey (fst first_run) \<notin> convertedKeys (ledger (snd first_run))
   \<and> writeQueue (ledger (snd first_run)) = []
   \<and> appendLog (disk (snd first_run)) = None"
  by (simp add: processImage_frame first_run_eq demo_result_def demo_world_def
      demo_service_def new_tracker_def)

text \<open>
  C5 (the code does otherwise).  The claim: once \<open>markAsConverted\<close> has returned for a
  record, a new tracker that loads from the files alone answers \<open>isConverted\<close> with true
  for its source key.  \<open>appendToLog\<close> appends to whatever the journal ends with.  When a
  crash has left a partial line and the write of the tracking file fails during the load,
  \<open>consolidateFiles\<close> catches the error and the journal keeps the partial line; the call
  then returns with the record glued to that line, the line does not parse, and a new
  tracker answers false, after which its own consolidation empties the journal.
\<close>

theorem C5_record_glued_to_partial_line:
  "markAsConverted demo_json write_fails demo_record (new_tracker, crashed_disk) =
     (Inr (),
      \<lparr>convertedKeys = {''photo.jpg''}, isLoaded = True, writeQueue = [demo_record],
       isWriting = False\<rparr>,
      \<lparr>trackingFile = None, appendLog = Some ''{old.png{photo.jpg}\<newline>''\<rparr>, None)
   \<and> sourceKey_rec demo_record = ''photo.jpg''
   \<and> isConverted demo_json no_faults ''photo.jpg''
        (new_tracker, \<lparr>trackingFile = None, appendLog = Some ''{old.png{photo.jpg}\<newline>''\<rparr>) =
      (False,
       \<lparr>convertedKeys = {}, isLoaded = True, writeQueue = [], isWriting = False\<rparr>,
       \<lparr>trackingFile = Some [], appendLog = Some []\<rparr>)"
  using crashed_mark_write_fails glued_reload by (simp add: demo_record_def)

text \<open>
  C6 (the code does otherwise).  The claim: after a consolidation that completes, the
  tracking file holds the records of the old tracking file and of the journal, one per
  source key, and the journal is empty.  The inner \<open>catch\<close> of \<open>consolidateFiles\<close> takes
  every error of the read of the tracking file for a missing file.  With a tracking file
  holding \<open>a.jpg\<close>, a journal holding \<open>b.png\<close> and a read that throws, the consolidation
  runs to its end, the tracking file is rewritten with \<open>b.png\<close> alone and the journal is
  emptied: \<open>a.jpg\<close> is lost.
\<close>

theorem C6_read_error_drops_stored_records:
  "stored_records demo_json one_each = Some [key_record ''a.jpg'']
   \<and> journal_records demo_json one_each = [key_record ''b.png'']
   \<and> consolidateFiles demo_json read_fails one_each =
       (True, \<lparr>trackingFile = Some ''{b.png}\<newline>'', appendLog = Some []\<rparr>)
   \<and> stored_records demo_json \<lparr>trackingFile = Some ''{b.png}\<newline>'', appendLog = Some []\<rparr>
       = Some [key_record ''b.png'']"
  using one_each_stored one_each_journal one_each_consolidated one_each_after by simp

text \<open>
  C7.  A run that gets through the encoding step for an object of positive size reports
  \<open>compressionRatio = (originalSize - convertedSize) / originalSize\<close>, also when the upload
  fails afterwards; the ratio is negative when the result is larger than the original, and
  it is -0.2 for 1000 and 1200 bytes.
\<close>

theorem C7_compressionRatio:
  assumes "skipIfExists svc env (s3 w) (generateTargetKey (key ob)) = (False, st1)"
    and "downloadImage env st1 (targetBucket (config svc)) (key ob) = (Inr imageBuffer, st2)"
    and "validateImageFormat ip imageBuffer = Inr True"
    and "getImageMetadata ip imageBuffer = Inr md"
    and "convertToWebP ip imageBuffer (quality (config svc)) = Inr webpBuffer"
    and "size' ob > 0"
  shows "originalSize (fst (processImage svc env ip w ob)) = size' ob
         \<and> convertedSize (fst (processImage svc env ip w ob)) = length webpBuffer
         \<and> compressionRatio (fst (processImage svc env ip w ob)) =
              (real (size' ob) - real (length webpBuffer)) / real (size' ob)
         \<and> (size' ob < length webpBuffer \<longrightarrow>
              compressionRatio (fst (processImage svc env ip w ob)) < 0)
         \<and> (size' ob = 1000 \<and> length webpBuffer = 1200 \<longrightarrow>
              compressionRatio (fst (processImage svc env ip w ob)) = - 0.2)"
proof -
  let ?r = "fst (processImage svc env ip w ob)"
  from assms(1-5) have
    "originalSize ?r = size' ob \<and> convertedSize ?r = length webpBuffer
     \<and> compressionRatio ?r = (real (size' ob) - real (length webpBuffer)) / real (size' ob)"
    by (simp add: processImage_def Let_def caught_def split: prod.splits sum.splits)
  moreover have "(real (size' ob) - real (length webpBuffer)) / real (size' ob) < 0"
    if "size' ob < length webpBuffer"
    using that assms(6) by (simp add: divide_less_0_iff)
  ultimately show ?thesis by auto
qed

theorem C7_compressionRatio_witness:
  "skipIfExists demo_service demo_env (s3 demo_world) (generateTargetKey (key demo_object)) =
     (False, demo_store\<lparr>sent := [ListObjectsV2 ''my-webp-bucket'' ''photo.webp'']\<rparr>)
   \<and> size' demo_object = 1000
   \<and> convertToWebP (demo_processor 1200) (replicate 1000 0) (quality (config demo_service)) =
       Inr (replicate 1200 0)
   \<and> compressionRatio (fst (processImage demo_service demo_env (demo_processor 1200) demo_world
        demo_object)) = - 0.2"
proof -
  have v: "validateImageFormat (demo_processor 1200) (replicate 1000 0) = Inr True"
    and m: "getImageMetadata (demo_processor 1200) (replicate 1000 0) =
         Inr \<lparr>originalFormat = ''jpeg'', width = 10, height = 10,
              fileSize = length (replicate 1000 (0::nat)), lastModified_md = 0,
              contentType = ''image/jpeg''\<rparr>"
    and c: "convertToWebP (demo_processor 1200) (replicate 1000 0) (quality (config demo_service)) =
         Inr (replicate 1200 0)"
    and z: "size' demo_object > 0" "size' demo_object = 1000"
    by (simp_all add: demo_processor_def demo_object_def)
  from C7_compressionRatio [OF bigger_run(1) bigger_run(2) v m c z(1)] z(2) c bigger_run(1)
  show ?thesis by simp
qed

text \<open>
  C8.  The target key of a source key is the key with everything from its last dot on
  replaced by \<open>.webp\<close> when the key has a dot, and the key with \<open>.webp\<close> appended when it
  has none; \<open>a/b/photo.JPG\<close> becomes \<open>a/b/photo.webp\<close> and \<open>noext\<close> becomes \<open>noext.webp\<close>.
\<close>

theorem C8_generateTargetKey:
  "(CHR ''.'' \<notin> set k \<longrightarrow> generateTargetKey k = k @ ''.webp'')
   \<and> (\<forall>p t. k = p @ CHR ''.'' # t \<and> CHR ''.'' \<notin> set t \<longrightarrow> generateTargetKey k = p @ ''.webp'')
   \<and> generateTargetKey ''a/b/photo.JPG'' = ''a/b/photo.webp''
   \<and> generateTargetKey ''noext'' = ''noext.webp''"
proof -
  have a: "generateTargetKey ''a/b/photo.JPG'' = ''a/b/photo.webp''"
    using generateTargetKey_dot [of "''JPG''" "''a/b/photo''"] by simp
  have b: "generateTargetKey ''noext'' = ''noext.webp''"
    using generateTargetKey_no_dot [of "''noext''"] by simp
  show ?thesis
    using a b by (auto simp: generateTargetKey_no_dot generateTargetKey_dot)
qed

theorem C8_generateTargetKey_witness:
  "CHR ''.'' \<notin> set ''noext'' \<and> generateTargetKey ''noext'' = ''noext.webp''
   \<and> ''a/b/photo.JPG'' = ''a/b/photo'' @ CHR ''.'' # ''JPG'' \<and> CHR ''.'' \<notin> set ''JPG''
   \<and> generateTargetKey ''a/b/photo.JPG'' = ''a/b/photo'' @ ''.webp''"
  using C8_generateTargetKey [of "''noext''"] C8_generateTargetKey [of "''a/b/photo.JPG''"]
  by simp

text \<open>
  C9.  When the listing throws, \<open>processAllImages\<close> does not throw: it returns a report
  whose counters and sizes are zero and whose error list is the one line that describes the
  listing failure.
\<close>

theorem C9_listing_failure_report:
  assumes "fst (listImages (config svc) env st (targetBucket (config svc)) (prefix (config svc)))
             = Inl e"
  shows "\<exists>rep. processAllImages svc env st evs = Some rep
           \<and> successful rep = 0 \<and> failed rep = 0 \<and> skipped rep = 0
           \<and> totalSizeBefore rep = 0 \<and> totalSizeAfter rep = 0
           \<and> errors rep = [''Batch conversion failed: '' @ errorMessage e]"
  using assms by (simp add: processAllImages_def initial_report_def)

theorem C9_listing_failure_report_witness:
  "fst (listImages (config demo_service) failing_env demo_store
          (targetBucket (config demo_service)) (prefix (config demo_service))) =
     Inl (Error ''Failed to list images from bucket my-webp-bucket: Access Denied, duration: 5'')
   \<and> (\<exists>rep. processAllImages demo_service failing_env demo_store demo_events = Some rep
          \<and> successful rep = 0 \<and> failed rep = 0 \<and> skipped rep = 0
          \<and> totalSizeBefore rep = 0 \<and> totalSizeAfter rep = 0
          \<and> errors rep = [''Batch conversion failed: Failed to list images from bucket my-webp-bucket: Access Denied, duration: 5''])"
  using C9_listing_failure_report [OF failing_listing, of demo_events] failing_listing by simp

text \<open>
  C10.  Every report \<open>processAllImages\<close> returns has \<open>totalImages = 0\<close>: the field starts
  at zero and nothing assigns it.
\<close>

theorem C10_totalImages_zero:
  assumes "processAllImages svc env st evs = Some rep"
  shows "totalImages rep = 0"
proof (cases "fst (listImages (config svc) env st (targetBucket (config svc)) (prefix (config svc)))")
  case (Inl e)
  with assms show ?thesis by (auto simp: processAllImages_def initial_report_def)
next
  case (Inr images)
  show ?thesis
  proof (cases "length images = 0")
    case True
    with Inr assms show ?thesis by (auto simp: processAllImages_def initial_report_def)
  next
    case False
    with Inr assms obtain s where
      b: "processConcurrentBatches svc evs (initial_scheduler images) = Some s"
      and rep: "totalImages rep = totalImages (report s)"
      by (auto simp: processAllImages_def Let_def split: option.splits if_splits)
    from b have "steps svc evs (initial_scheduler images) = Some s"
      by (auto simp: processConcurrentBatches_def split: option.splits if_splits)
    then have "totalImages (report s) = totalImages (report (initial_scheduler images))"
      by (rule totalImages_steps)
    with rep show ?thesis by (simp add: initial_scheduler_def initial_report_def)
  qed
qed

theorem C10_totalImages_zero_witness:
  "processAllImages demo_service demo_env demo_store demo_events =
     Some \<lparr>totalImages = 0, successful = 1, failed = 0, skipped = 0, totalSizeBefore = 1000,
           totalSizeAfter = 500, averageCompressionRatio = 1 / 2, processingDuration = 5,
           errors = []\<rparr>
   \<and> totalImages \<lparr>totalImages = 0, successful = 1, failed = 0, skipped = 0,
        totalSizeBefore = 1000, totalSizeAfter = 500, averageCompressionRatio = 1 / 2,
        processingDuration = 5, errors = []\<rparr> = 0"
  using C10_totalImages_zero [OF demo_run] demo_run by simp

end
